theory Spec2Isabelle
  imports Main "HOL-Library.Word" "HOL-Library.Multiset"
begin

section \<open>BIP-158 test vector generator (bip-0158/gentestvectors.go)\<close>

text \<open>
  The program walks the block chain by height, builds a basic and an extended compact block
  filter for each block and each collision parameter P in 1..32, chains the filter headers
  per P, and writes a row of test data at selected heights. The model is a shallow embedding:
  Go structs are records, \<open>(value, error)\<close> results are sums with the error on the left,
  a nil pointer is \<open>None\<close>, slices are lists, and the driver's loops are recursive
  functions that pass the mutable state explicitly.
\<close>

subsection \<open>Data: package wire\<close>

type_synonym bytes = "8 word list"
type_synonym hash = "8 word list"
type_synonym error = string

record OutPoint =
  Hash :: hash
  Index :: "32 word"

text \<open>A nil \<open>SignatureScript\<close> slice is \<open>None\<close>; the source tests it against nil.\<close>

record TxIn =
  PreviousOutPoint :: OutPoint
  SignatureScript :: "bytes option"
  Witness :: "bytes list"
  Sequence :: "32 word"

record TxOut =
  Value :: "64 word"
  PkScript :: bytes

record MsgTx =
  Version :: "32 word"
  TxIn :: "TxIn list"
  TxOut :: "TxOut list"
  LockTime :: "32 word"

record MsgBlock =
  Header :: bytes
  Transactions :: "MsgTx list"

datatype FilterType = GCSFilterRegular | GCSFilterExtended

subsection \<open>Data: packages gcs and gcs/builder\<close>

text \<open>
  A filter holds the element count N, the parameter P and the Golomb-Rice bit stream.
  The literal \<open>&gcs.Filter{}\<close> of the source is the zero value of the struct.
\<close>

record Filter =
  f_n :: "32 word"
  f_p :: "8 word"
  filterData :: bytes

definition emptyFilter :: Filter where
  "emptyFilter = \<lparr>f_n = 0, f_p = 0, filterData = []\<rparr>"

record GCSBuilder =
  b_p :: "8 word"
  b_key :: bytes
  b_data :: "bytes list"
  b_err :: "error option"

subsection \<open>Data: the driver\<close>

record testBlockCase =
  height :: "32 word"
  comment :: string

datatype json = JInt int | JStr string

text \<open>
  What reaches the underlying \<open>io.Writer\<close>: literal text, or the bytes that
  \<open>json.Marshal\<close> produced for a row.
\<close>

datatype chunk = Text string | Json "json list"

record JSONTestWriter =
  writer :: "chunk list"
  firstRowWritten :: bool

record state =
  files :: "JSONTestWriter option list"
  prevBasicHeaders :: "hash list"
  prevExtHeaders :: "hash list"

subsection \<open>The imported packages and the outside world\<close>

text \<open>
  Everything the program calls but does not define: the file system, the RPC client of the
  node, and the primitives of the packages wire, chainhash, txscript and gcs. They are
  parameters of the model; no theorem depends on what they compute unless it says so.
\<close>

record env =
  Mkdir :: "error option"
  Create :: "nat \<Rightarrow> error option"
  WriteErr :: "chunk list \<Rightarrow> chunk \<Rightarrow> error option"
  MarshalErr :: "json list \<Rightarrow> error option"
  ReadFile :: "error option"
  NewClient :: "error option"
  GetBlockHash :: "int \<Rightarrow> error + hash"
  GetBlock :: "hash \<Rightarrow> error + MsgBlock"
  GetCFilter :: "hash \<Rightarrow> FilterType \<Rightarrow> error + bytes"
  GetCFilterHeader :: "hash \<Rightarrow> FilterType \<Rightarrow> error + hash"
  Serialize :: "MsgBlock \<Rightarrow> error + bytes"
  BlockHash :: "MsgBlock \<Rightarrow> hash"
  TxHash :: "MsgTx \<Rightarrow> hash"
  WriteOutPoint :: "OutPoint \<Rightarrow> bytes"
  PushedData :: "bytes \<Rightarrow> bytes list"
  DefaultP :: nat
  DeriveKey :: "hash \<Rightarrow> bytes"
  KeyErr :: "hash \<Rightarrow> 8 word \<Rightarrow> error option"
  BuildGCSFilter :: "8 word \<Rightarrow> bytes \<Rightarrow> bytes list \<Rightarrow> error + Filter option"
  GetFilterHash :: "Filter option \<Rightarrow> error + hash"
  DoubleHashH :: "bytes \<Rightarrow> hash"
  WriteVarInt :: "nat \<Rightarrow> bytes"
  HashToRange :: "bytes \<Rightarrow> bytes \<Rightarrow> nat \<Rightarrow> nat"

subsection \<open>The builder of package gcs/builder\<close>

text \<open>
  Modelled from the spec: the type \<open>GCSBuilder\<close> and its methods, which the source imports
  from package gcs/builder and which are not under src/. The builder collects the element
  set of one filter (spec section 3, Element Set: a collection of byte strings extracted from
  one block for one filter variant); the key is derived from the block hash and a failure to
  derive it is kept in the builder and reported by \<open>Key\<close> and \<open>Build\<close> (spec section 4.2).
  \<open>AddEntry\<close> adds its argument as one element, \<open>AddHash\<close> a hash, \<open>AddOutPoint\<close>
  the serialized outpoint, \<open>AddScript\<close> each data item pushed by a script and
  \<open>AddWitness\<close> each item of a witness stack (spec section 4.1). The elements are kept in
  insertion order with their duplicates; collapsing them is the encoder's work.
\<close>

definition WithKeyHashP :: "env \<Rightarrow> hash \<Rightarrow> 8 word \<Rightarrow> GCSBuilder" where
  "WithKeyHashP E keyHash p =
     \<lparr>b_p = p, b_key = DeriveKey E keyHash, b_data = [], b_err = KeyErr E keyHash p\<rparr>"

definition Key :: "GCSBuilder \<Rightarrow> bytes \<times> error option" where
  "Key b = (b_key b, b_err b)"

definition AddEntry :: "bytes \<Rightarrow> GCSBuilder \<Rightarrow> GCSBuilder" where
  "AddEntry d b = (if b_err b \<noteq> None then b else b\<lparr>b_data := b_data b @ [d]\<rparr>)"

definition AddEntries :: "bytes list \<Rightarrow> GCSBuilder \<Rightarrow> GCSBuilder" where
  "AddEntries ds b = (if b_err b \<noteq> None then b else fold AddEntry ds b)"

definition AddHash :: "hash \<Rightarrow> GCSBuilder \<Rightarrow> GCSBuilder" where
  "AddHash h b = (if b_err b \<noteq> None then b else AddEntry h b)"

definition AddOutPoint :: "env \<Rightarrow> OutPoint \<Rightarrow> GCSBuilder \<Rightarrow> GCSBuilder" where
  "AddOutPoint E outpoint b =
     (if b_err b \<noteq> None then b else AddEntry (WriteOutPoint E outpoint) b)"

definition AddScript :: "env \<Rightarrow> bytes \<Rightarrow> GCSBuilder \<Rightarrow> GCSBuilder" where
  "AddScript E script b =
     (if b_err b \<noteq> None then b else AddEntries (PushedData E script) b)"

definition AddWitness :: "bytes list \<Rightarrow> GCSBuilder \<Rightarrow> GCSBuilder" where
  "AddWitness witness b = (if b_err b \<noteq> None then b else AddEntries witness b)"

definition Build :: "env \<Rightarrow> GCSBuilder \<Rightarrow> error + Filter option" where
  "Build E b =
     (case b_err b of
        Some e \<Rightarrow> Inl e
      | None \<Rightarrow> BuildGCSFilter E (b_p b) (b_key b) (b_data b))"

subsection \<open>buildBasicFilter and buildExtFilter (lines 282-361)\<close>

text \<open>The body of the loop over the transactions of buildBasicFilter, lines 297-315.\<close>

definition basic_tx :: "env \<Rightarrow> nat \<Rightarrow> MsgTx \<Rightarrow> GCSBuilder \<Rightarrow> GCSBuilder" where
  "basic_tx E i tx b =
     (let b1 = AddHash (TxHash E tx) b;
          b2 = (if i \<noteq> 0
                then fold (\<lambda>txIn. AddOutPoint E (PreviousOutPoint txIn)) (TxIn tx) b1
                else b1)
      in fold (\<lambda>txOut. AddEntry (PkScript txOut)) (TxOut tx) b2)"

fun basic_txs :: "env \<Rightarrow> nat \<Rightarrow> MsgTx list \<Rightarrow> GCSBuilder \<Rightarrow> GCSBuilder" where
  "basic_txs E i [] b = b"
| "basic_txs E i (tx # txs) b = basic_txs E (Suc i) txs (basic_tx E i tx b)"

definition buildBasicFilter :: "env \<Rightarrow> MsgBlock \<Rightarrow> 8 word \<Rightarrow> error + Filter option" where
  "buildBasicFilter E block p =
     (let blockHash = BlockHash E block;
          b = WithKeyHashP E blockHash p
      in case Key b of
           (_, Some e) \<Rightarrow> Inl e
         | (_, None) \<Rightarrow> Build E (basic_txs E 0 (Transactions block) b))"

text \<open>The elements that the builder of buildBasicFilter holds when \<open>Build\<close> is called.\<close>

definition basic_elements :: "env \<Rightarrow> MsgBlock \<Rightarrow> 8 word \<Rightarrow> bytes list" where
  "basic_elements E block p =
     b_data (basic_txs E 0 (Transactions block) (WithKeyHashP E (BlockHash E block) p))"

text \<open>The body of the loop over the inputs of buildExtFilter, lines 349-355.\<close>

definition ext_txin :: "env \<Rightarrow> TxIn \<Rightarrow> GCSBuilder \<Rightarrow> GCSBuilder" where
  "ext_txin E txIn b =
     (let b1 = (case SignatureScript txIn of
                  Some s \<Rightarrow> AddScript E s b
                | None \<Rightarrow> b)
      in if length (Witness txIn) \<noteq> 0 then AddWitness (Witness txIn) b1 else b1)"

definition ext_tx :: "env \<Rightarrow> nat \<Rightarrow> MsgTx \<Rightarrow> GCSBuilder \<Rightarrow> GCSBuilder" where
  "ext_tx E i tx b = (if i \<noteq> 0 then fold (ext_txin E) (TxIn tx) b else b)"

fun ext_txs :: "env \<Rightarrow> nat \<Rightarrow> MsgTx list \<Rightarrow> GCSBuilder \<Rightarrow> GCSBuilder" where
  "ext_txs E i [] b = b"
| "ext_txs E i (tx # txs) b = ext_txs E (Suc i) txs (ext_tx E i tx b)"

definition buildExtFilter :: "env \<Rightarrow> MsgBlock \<Rightarrow> 8 word \<Rightarrow> error + Filter option" where
  "buildExtFilter E block p =
     (let blockHash = BlockHash E block;
          b = WithKeyHashP E blockHash p
      in case Key b of
           (_, Some e) \<Rightarrow> Inl e
         | (_, None) \<Rightarrow> Build E (ext_txs E 0 (Transactions block) b))"

text \<open>The elements that the builder of buildExtFilter holds when \<open>Build\<close> is called.\<close>

definition ext_elements :: "env \<Rightarrow> MsgBlock \<Rightarrow> 8 word \<Rightarrow> bytes list" where
  "ext_elements E block p =
     b_data (ext_txs E 0 (Transactions block) (WithKeyHashP E (BlockHash E block) p))"

text \<open>
  What one input gives to the extended filter: the data pushed by its signature script, if
  it has one, and the items of its witness stack.
\<close>

definition txin_items :: "env \<Rightarrow> TxIn \<Rightarrow> bytes set" where
  "txin_items E txIn =
     (case SignatureScript txIn of Some s \<Rightarrow> set (PushedData E s) | None \<Rightarrow> {})
     \<union> set (Witness txIn)"

subsection \<open>Filter bytes and filter headers\<close>

text \<open>
  Modelled from the spec: the method \<open>NBytes\<close> of \<open>gcs.Filter\<close>, which is not under
  src/. A filter serializes as a variable-length count prefix followed by the Golomb-Rice
  bit stream (spec section 3, Filter). The count prefix is the parameter \<open>WriteVarInt\<close>.
\<close>

definition NBytes :: "env \<Rightarrow> Filter \<Rightarrow> error + bytes" where
  "NBytes E f = Inr (WriteVarInt E (unat (f_n f)) @ filterData f)"

text \<open>
  Modelled from the spec: \<open>builder.MakeHeaderForFilter\<close>, which is not under src/. The
  next header is the double hash of the filter's hash followed by the previous header
  (spec section 4.3). The hash of a filter, also of a nil one, is the parameter
  \<open>GetFilterHash\<close>.
\<close>

definition MakeHeaderForFilter :: "env \<Rightarrow> Filter option \<Rightarrow> hash \<Rightarrow> error + hash" where
  "MakeHeaderForFilter E filt prevHeader =
     (case GetFilterHash E filt of
        Inl e \<Rightarrow> Inl e
      | Inr filterHash \<Rightarrow> Inr (DoubleHashH E (filterHash @ prevHeader)))"

text \<open>
  Modelled from the spec: \<open>gcs.BuildGCSFilter\<close>, which is not under src/ (spec sections 3
  and 4.2). Duplicate elements collapse to one; each of the N elements is hashed under the
  key into the range \<open>[0, N * 2^P)\<close> (the parameter \<open>HashToRange\<close>); the values are
  sorted, delta-encoded and Golomb-Rice coded with Rice parameter P; the filter records N.
\<close>

fun deltas :: "nat \<Rightarrow> nat list \<Rightarrow> nat list" where
  "deltas prev [] = []"
| "deltas prev (v # vs) = (v - prev) # deltas v vs"

fun bits_of :: "nat \<Rightarrow> nat \<Rightarrow> bool list" where
  "bits_of 0 v = []"
| "bits_of (Suc k) v = odd (v div 2 ^ k) # bits_of k v"

definition golomb_rice :: "nat \<Rightarrow> nat \<Rightarrow> bool list" where
  "golomb_rice P d = replicate (d div 2 ^ P) True @ [False] @ bits_of P (d mod 2 ^ P)"

definition byte_of_bits :: "bool list \<Rightarrow> 8 word" where
  "byte_of_bits bs = foldl (\<lambda>acc b. 2 * acc + (if b then 1 else 0)) 0 bs"

fun pack_bits :: "nat \<Rightarrow> bool list \<Rightarrow> bytes" where
  "pack_bits 0 bs = []"
| "pack_bits (Suc k) bs =
     (if bs = [] then []
      else byte_of_bits (take 8 (bs @ replicate 7 False)) # pack_bits k (drop 8 bs))"

definition BuildGCSFilter_spec :: "env \<Rightarrow> 8 word \<Rightarrow> bytes \<Rightarrow> bytes list \<Rightarrow> Filter" where
  "BuildGCSFilter_spec E P key elems =
     (let es = remdups elems;
          N = length es;
          vals = sort (map (\<lambda>e. HashToRange E key e (N * 2 ^ unat P)) es);
          stream = concat (map (golomb_rice (unat P)) (deltas 0 vals))
      in \<lparr>f_n = of_nat N, f_p = P, filterData = pack_bits (length stream) stream\<rparr>)"

subsection \<open>Text forms: encoding/hex and chainhash.Hash.String\<close>

definition hexdigit :: "nat \<Rightarrow> char" where
  "hexdigit d = ''0123456789abcdef'' ! d"

definition EncodeToString :: "bytes \<Rightarrow> string" where
  "EncodeToString bs =
     concat (map (\<lambda>b. [hexdigit (unat b div 16), hexdigit (unat b mod 16)]) bs)"

text \<open>A hash prints as the hexadecimal string of its bytes in reverse order.\<close>

definition Hash_String :: "hash \<Rightarrow> string" where
  "Hash_String h = EncodeToString (rev h)"

subsection \<open>JSONTestWriter (lines 46-87)\<close>

definition newline :: string where
  "newline = [CHR 0x0A]"

text \<open>
  The receiver is a pointer: the writer as it is after the call is returned beside the
  error, and \<open>firstRowWritten\<close> is set before the error of the first write is looked at.
\<close>

definition WriteTestCase :: "env \<Rightarrow> JSONTestWriter \<Rightarrow> json list \<Rightarrow> error option \<times> JSONTestWriter" where
  "WriteTestCase E w row =
     (let sep = (if firstRowWritten w then Text ('','' @ newline) else Text (''['' @ newline));
          w1 = w\<lparr>firstRowWritten := True\<rparr>
      in case WriteErr E (writer w) sep of
           Some e \<Rightarrow> (Some e, w1)
         | None \<Rightarrow>
             (let w2 = w1\<lparr>writer := writer w1 @ [sep]\<rparr>
              in case MarshalErr E row of
                   Some e \<Rightarrow> (Some e, w2)
                 | None \<Rightarrow>
                     (case WriteErr E (writer w2) (Json row) of
                        Some e \<Rightarrow> (Some e, w2)
                      | None \<Rightarrow> (None, w2\<lparr>writer := writer w2 @ [Json row]\<rparr>))))"

definition WriteComment :: "env \<Rightarrow> JSONTestWriter \<Rightarrow> string \<Rightarrow> error option \<times> JSONTestWriter" where
  "WriteComment E w c = WriteTestCase E w [JStr c]"

definition Close :: "env \<Rightarrow> JSONTestWriter \<Rightarrow> error option \<times> JSONTestWriter" where
  "Close E w =
     (if \<not> firstRowWritten w then (None, w)
      else (let t = Text (newline @ '']'' @ newline)
            in case WriteErr E (writer w) t of
                 Some e \<Rightarrow> (Some e, w)
               | None \<Rightarrow> (None, w\<lparr>writer := writer w @ [t]\<rparr>)))"

subsection \<open>main (lines 89-276)\<close>

definition testBlockHeights :: "testBlockCase list" where
  "testBlockHeights =
     [\<lparr>height = 0, comment = ''Genesis block''\<rparr>,
      \<lparr>height = 1, comment = ''Extended filter is empty''\<rparr>,
      \<lparr>height = 2, comment = []\<rparr>,
      \<lparr>height = 3, comment = []\<rparr>,
      \<lparr>height = 926485,
       comment = ''Duplicate pushdata 913bcc2be49cb534c20474c4dee1e9c4c317e7eb''\<rparr>,
      \<lparr>height = 987876, comment = ''Coinbase tx has unparseable output script''\<rparr>,
      \<lparr>height = 1263442, comment = ''Includes witness data''\<rparr>]"

text \<open>
  Every place where main prints a diagnostic and returns is one constructor, named after
  the text it prints; \<open>NilPointerPanic\<close> is the run-time panic of a method call through a
  nil writer.
\<close>

datatype abort =
    CouldntCreateDirectory error
  | ErrorCreatingOutputFile error
  | ErrorWritingToOutputFile error
  | CouldntReadRPCCert error
  | CouldntCreateNewClient error
  | CouldntGetBlockHash error
  | ErrorSerializingBlock error
  | ErrorGeneratingBasicFilter error
  | ErrorGeneratingHeader error
  | ErrorGeneratingExtFilter error
  | ErrorGettingBasicFilter error
  | CouldntGetNBytes error
  | BasicFilterDoesntMatch bytes bytes
  | ErrorGettingExtFilter error
  | ExtFilterDoesntMatch
  | ErrorGettingBasicHeader error
  | BasicHeaderDoesntMatch
  | ErrorGettingExtHeader error
  | ExtHeaderDoesntMatch
  | ErrorWritingTestCase error
  | NilPointerPanic

definition zeroHash :: hash where
  "zeroHash = replicate 32 0"

text \<open>Lines 95-97: three slices of 33 zero values.\<close>

definition init_state :: state where
  "init_state =
     \<lparr>files = replicate 33 None,
      prevBasicHeaders = replicate 33 zeroHash,
      prevExtHeaders = replicate 33 zeroHash\<rparr>"

definition header_comment :: string where
  "header_comment = ''Block Height,Block Hash,Block,Previous Basic Header,Previous Ext Header,Basic Filter,Ext Filter,Basic Header,Ext Header,Notes''"

text \<open>
  Lines 98-117, for i in 1..32. A writer whose header comment could not be written is
  returned beside the abort: it is not stored in \<open>files\<close>, but its Close is deferred.
\<close>

fun open_files :: "env \<Rightarrow> nat list \<Rightarrow> state \<Rightarrow> (abort \<times> JSONTestWriter option) option \<times> state" where
  "open_files E [] st = (None, st)"
| "open_files E (i # is) st =
     (case Create E i of
        Some e \<Rightarrow> (Some (ErrorCreatingOutputFile e, None), st)
      | None \<Rightarrow>
          (case WriteComment E \<lparr>writer = [], firstRowWritten = False\<rparr> header_comment of
             (Some e, w) \<Rightarrow> (Some (ErrorWritingToOutputFile e, Some w), st)
           | (None, w) \<Rightarrow> open_files E is (st\<lparr>files := (files st)[i := Some w]\<rparr>)))"

text \<open>
  Lines 158-185: both filters and both headers for one P. The header is made from the filter
  as \<open>Build\<close> returned it; a nil filter is replaced by the empty filter afterwards.
\<close>

definition filters_and_headers ::
  "env \<Rightarrow> MsgBlock \<Rightarrow> nat \<Rightarrow> state \<Rightarrow> abort + (Filter \<times> hash \<times> Filter \<times> hash)" where
  "filters_and_headers E block i st =
     (case buildBasicFilter E block (of_nat i) of
        Inl e \<Rightarrow> Inl (ErrorGeneratingBasicFilter e)
      | Inr basicFilter \<Rightarrow>
     (case MakeHeaderForFilter E basicFilter (prevBasicHeaders st ! i) of
        Inl e \<Rightarrow> Inl (ErrorGeneratingHeader e)
      | Inr basicHeader \<Rightarrow>
     (let basicFilter' = (case basicFilter of None \<Rightarrow> emptyFilter | Some f \<Rightarrow> f)
      in
     (case buildExtFilter E block (of_nat i) of
        Inl e \<Rightarrow> Inl (ErrorGeneratingExtFilter e)
      | Inr extFilter \<Rightarrow>
     (case MakeHeaderForFilter E extFilter (prevExtHeaders st ! i) of
        Inl e \<Rightarrow> Inl (ErrorGeneratingHeader e)
      | Inr extHeader \<Rightarrow>
     (let extFilter' = (case extFilter of None \<Rightarrow> emptyFilter | Some f \<Rightarrow> f)
      in Inr (basicFilter', basicHeader, extFilter', extHeader)))))))"

text \<open>Lines 187-234: the comparison with the server's filters and headers.\<close>

definition verify_against_server ::
  "env \<Rightarrow> hash \<Rightarrow> Filter \<Rightarrow> hash \<Rightarrow> Filter \<Rightarrow> hash \<Rightarrow> abort option" where
  "verify_against_server E blockHash basicFilter basicHeader extFilter extHeader =
     (case GetCFilter E blockHash GCSFilterRegular of
        Inl e \<Rightarrow> Some (ErrorGettingBasicFilter e)
      | Inr filter_Data \<Rightarrow>
     (case NBytes E basicFilter of
        Inl e \<Rightarrow> Some (CouldntGetNBytes e)
      | Inr nBytes \<Rightarrow>
     if filter_Data \<noteq> nBytes then Some (BasicFilterDoesntMatch filter_Data nBytes)
     else
     (case GetCFilter E blockHash GCSFilterExtended of
        Inl e \<Rightarrow> Some (ErrorGettingExtFilter e)
      | Inr filter_Data \<Rightarrow>
     (case NBytes E extFilter of
        Inl e \<Rightarrow> Some (CouldntGetNBytes e)
      | Inr nBytes \<Rightarrow>
     if filter_Data \<noteq> nBytes then Some ExtFilterDoesntMatch
     else
     (case GetCFilterHeader E blockHash GCSFilterRegular of
        Inl e \<Rightarrow> Some (ErrorGettingBasicHeader e)
      | Inr header \<Rightarrow>
     if header \<noteq> basicHeader then Some BasicHeaderDoesntMatch
     else
     (case GetCFilterHeader E blockHash GCSFilterExtended of
        Inl e \<Rightarrow> Some (ErrorGettingExtHeader e)
      | Inr header \<Rightarrow>
     if header \<noteq> extHeader then Some ExtHeaderDoesntMatch
     else None))))))"

text \<open>
  Lines 237-267: at a test height, the row of this P. \<open>h\<close> is the loop variable
  \<open>height\<close>, a Go int; \<open>uint32(height)\<close> is its value modulo \<open>2^32\<close>. The row holds the
  previous headers as they are in the state when the row is made.
\<close>

definition test_row ::
  "testBlockCase list \<Rightarrow> nat \<Rightarrow> int \<Rightarrow> hash \<Rightarrow> bytes \<Rightarrow> hash \<Rightarrow> hash \<Rightarrow> bytes \<Rightarrow> bytes
     \<Rightarrow> hash \<Rightarrow> hash \<Rightarrow> json list" where
  "test_row tbh testBlockIndex h blockHash blockBytes prevBasic prevExt bfBytes efBytes
     basicHeader extHeader =
     [JInt h,
      JStr (Hash_String blockHash),
      JStr (EncodeToString blockBytes),
      JStr (Hash_String prevBasic),
      JStr (Hash_String prevExt),
      JStr (EncodeToString bfBytes),
      JStr (EncodeToString efBytes),
      JStr (Hash_String basicHeader),
      JStr (Hash_String extHeader),
      JStr (comment (tbh ! testBlockIndex))]"

definition emit_row ::
  "env \<Rightarrow> testBlockCase list \<Rightarrow> nat \<Rightarrow> int \<Rightarrow> hash \<Rightarrow> bytes \<Rightarrow> nat
     \<Rightarrow> Filter \<Rightarrow> hash \<Rightarrow> Filter \<Rightarrow> hash \<Rightarrow> state \<Rightarrow> abort option \<times> state" where
  "emit_row E tbh testBlockIndex h blockHash blockBytes i
     basicFilter basicHeader extFilter extHeader st =
     (if (word_of_int h :: 32 word) = height (tbh ! testBlockIndex) then
        (case NBytes E basicFilter of
           Inl e \<Rightarrow> (Some (CouldntGetNBytes e), st)
         | Inr bfBytes \<Rightarrow>
        (case NBytes E extFilter of
           Inl e \<Rightarrow> (Some (CouldntGetNBytes e), st)
         | Inr efBytes \<Rightarrow>
        (let row = test_row tbh testBlockIndex h blockHash blockBytes
                     (prevBasicHeaders st ! i) (prevExtHeaders st ! i) bfBytes efBytes
                     basicHeader extHeader
         in case files st ! i of
              None \<Rightarrow> (Some NilPointerPanic, st)
            | Some w \<Rightarrow>
                (case WriteTestCase E w row of
                   (Some e, w') \<Rightarrow>
                     (Some (ErrorWritingTestCase e), st\<lparr>files := (files st)[i := Some w']\<rparr>)
                 | (None, w') \<Rightarrow> (None, st\<lparr>files := (files st)[i := Some w']\<rparr>)))))
      else (None, st))"

text \<open>Lines 158-269: the body of the loop over P, for one value i of P.\<close>

definition process_P ::
  "env \<Rightarrow> testBlockCase list \<Rightarrow> nat \<Rightarrow> int \<Rightarrow> hash \<Rightarrow> MsgBlock \<Rightarrow> bytes \<Rightarrow> nat
     \<Rightarrow> state \<Rightarrow> abort option \<times> state" where
  "process_P E tbh testBlockIndex h blockHash block blockBytes i st =
     (case filters_and_headers E block i st of
        Inl a \<Rightarrow> (Some a, st)
      | Inr (basicFilter, basicHeader, extFilter, extHeader) \<Rightarrow>
     (case (if i = DefaultP E
            then verify_against_server E blockHash basicFilter basicHeader extFilter extHeader
            else None) of
        Some a \<Rightarrow> (Some a, st)
      | None \<Rightarrow>
     (case emit_row E tbh testBlockIndex h blockHash blockBytes i
             basicFilter basicHeader extFilter extHeader st of
        (Some a, st1) \<Rightarrow> (Some a, st1)
      | (None, st1) \<Rightarrow>
          (None, st1\<lparr>prevBasicHeaders := (prevBasicHeaders st1)[i := basicHeader],
                     prevExtHeaders := (prevExtHeaders st1)[i := extHeader]\<rparr>))))"

text \<open>Line 157: the loop over P; main runs it on the values 1..32.\<close>

fun P_loop ::
  "env \<Rightarrow> testBlockCase list \<Rightarrow> nat \<Rightarrow> int \<Rightarrow> hash \<Rightarrow> MsgBlock \<Rightarrow> bytes \<Rightarrow> nat list
     \<Rightarrow> state \<Rightarrow> abort option \<times> state" where
  "P_loop E tbh testBlockIndex h blockHash block blockBytes [] st = (None, st)"
| "P_loop E tbh testBlockIndex h blockHash block blockBytes (i # is) st =
     (case process_P E tbh testBlockIndex h blockHash block blockBytes i st of
        (Some a, st') \<Rightarrow> (Some a, st')
      | (None, st') \<Rightarrow> P_loop E tbh testBlockIndex h blockHash block blockBytes is st')"

text \<open>
  Lines 138-275: the loop over the heights. The result is the abort, if any, and the values
  of \<open>height\<close>, \<open>testBlockIndex\<close> and the state when the loop is left. The loop always
  ends: while the index stays, \<open>uint32(height)\<close> comes one step closer to the next test
  height in each round.
\<close>

function main_loop ::
  "env \<Rightarrow> testBlockCase list \<Rightarrow> nat \<Rightarrow> int \<Rightarrow> state \<Rightarrow> abort option \<times> int \<times> nat \<times> state" where
  "main_loop E tbh testBlockIndex h st =
     (if testBlockIndex < length tbh then
        (case GetBlockHash E h of
           Inl e \<Rightarrow> (Some (CouldntGetBlockHash e), h, testBlockIndex, st)
         | Inr blockHash \<Rightarrow>
        (case GetBlock E blockHash of
           Inl e \<Rightarrow> (Some (CouldntGetBlockHash e), h, testBlockIndex, st)
         | Inr block \<Rightarrow>
        (case Serialize E block of
           Inl e \<Rightarrow> (Some (ErrorSerializingBlock e), h, testBlockIndex, st)
         | Inr blockBytes \<Rightarrow>
        (case P_loop E tbh testBlockIndex h blockHash block blockBytes [1..<33] st of
           (Some a, st') \<Rightarrow> (Some a, h, testBlockIndex, st')
         | (None, st') \<Rightarrow>
             (if (word_of_int h :: 32 word) = height (tbh ! testBlockIndex)
              then main_loop E tbh (testBlockIndex + 1) (h + 1) st'
              else main_loop E tbh testBlockIndex (h + 1) st')))))
      else (None, h, testBlockIndex, st))"
  by pat_completeness auto
termination
proof (relation "measures [\<lambda>(E, tbh, k, h, st). length tbh - k,
                           \<lambda>(E, tbh, k, h, st). unat (height (tbh ! k) - word_of_int h)]",
       goal_cases)
  case 1
  show ?case by simp
next
  case 2
  then show ?case by auto
next
  case (3 E tbh k h st)
  have "height (tbh ! k) - word_of_int h \<noteq> (0 :: 32 word)"
    using 3 by simp
  then have "unat (height (tbh ! k) - word_of_int h - 1) < unat (height (tbh ! k) - word_of_int h)"
    by (simp add: unat_minus_one unat_gt_0)
  moreover have "height (tbh ! k) - word_of_int (h + 1) = height (tbh ! k) - word_of_int h - 1"
    by simp
  ultimately have "unat (height (tbh ! k) - word_of_int (h + 1))
      < unat (height (tbh ! k) - word_of_int h)"
    by (simp only:)
  then show ?case by simp
qed

text \<open>
  The deferred \<open>writer.Close()\<close> calls, which run when main returns; their errors are
  dropped. Each writer closes its own file, so their order does not show.
\<close>

definition run_deferred :: "env \<Rightarrow> JSONTestWriter option list \<Rightarrow> JSONTestWriter option list" where
  "run_deferred E ws = map (map_option (\<lambda>w. snd (Close E w))) ws"

text \<open>
  main: the abort, if any, the state at the return with the deferred calls done, and the
  writer that was opened but not stored, if the run ended there.
\<close>

definition main :: "env \<Rightarrow> abort option \<times> state \<times> JSONTestWriter option" where
  "main E =
     (case Mkdir E of
        Some e \<Rightarrow> (Some (CouldntCreateDirectory e), init_state, None)
      | None \<Rightarrow>
     (case open_files E [1..<33] init_state of
        (Some (a, w), st) \<Rightarrow>
          (Some a, st\<lparr>files := run_deferred E (files st)\<rparr>,
           map_option (\<lambda>w. snd (Close E w)) w)
      | (None, st) \<Rightarrow>
     (case ReadFile E of
        Some e \<Rightarrow> (Some (CouldntReadRPCCert e), st\<lparr>files := run_deferred E (files st)\<rparr>, None)
      | None \<Rightarrow>
     (case NewClient E of
        Some e \<Rightarrow>
          (Some (CouldntCreateNewClient e), st\<lparr>files := run_deferred E (files st)\<rparr>, None)
      | None \<Rightarrow>
     (case main_loop E testBlockHeights 0 0 st of
        (a, h, k, st') \<Rightarrow> (a, st'\<lparr>files := run_deferred E (files st')\<rparr>, None))))))"

subsection \<open>Notions used to state the properties\<close>

text \<open>Slot j of the three slices replaced by given values.\<close>

definition upd_slot ::
  "nat \<Rightarrow> JSONTestWriter option \<Rightarrow> hash \<Rightarrow> hash \<Rightarrow> state \<Rightarrow> state" where
  "upd_slot j f b e st =
     st\<lparr>files := (files st)[j := f],
        prevBasicHeaders := (prevBasicHeaders st)[j := b],
        prevExtHeaders := (prevExtHeaders st)[j := e]\<rparr>"

text \<open>
  The heights of the test rows in what a writer has written: the first cell of a row that
  starts with a number. The header comment is a row that starts with a string.
\<close>

fun row_height :: "chunk \<Rightarrow> int list" where
  "row_height (Json (JInt x # cells)) = [x]"
| "row_height c = []"

definition test_heights :: "JSONTestWriter option \<Rightarrow> int list" where
  "test_heights f = (case f of None \<Rightarrow> [] | Some w \<Rightarrow> concat (map row_height (writer w)))"

subsection \<open>A small concrete world, for running the model\<close>

text \<open>
  Stand-ins for the parameters, small enough to compute with: a script parser that knows a
  script made of one direct push, hashes that copy a few bytes, a filter encoder that
  returns nil for no elements, and a node that always answers. \<open>DefaultP\<close> is 0 here, so
  that no comparison with the server takes place; \<open>demo_env_check\<close> compares at P = 2
  against a server whose basic filter is one zero byte.
\<close>

definition demo_pushes :: "bytes \<Rightarrow> bytes list" where
  "demo_pushes script =
     (case script of
        [] \<Rightarrow> []
      | opc # rest \<Rightarrow> if 1 \<le> unat opc \<and> unat opc \<le> 75 \<and> length rest = unat opc then [rest] else [])"

definition demo_tx :: "32 word \<Rightarrow> TxIn list \<Rightarrow> TxOut list \<Rightarrow> MsgTx" where
  "demo_tx v ins outs = \<lparr>Version = v, TxIn = ins, TxOut = outs, LockTime = 0\<rparr>"

definition demo_in :: "8 word \<Rightarrow> bytes option \<Rightarrow> bytes list \<Rightarrow> TxIn" where
  "demo_in k sig wit =
     \<lparr>PreviousOutPoint = \<lparr>Hash = [k], Index = 0\<rparr>, SignatureScript = sig, Witness = wit,
      Sequence = 0\<rparr>"

definition demo_block :: MsgBlock where
  "demo_block =
     \<lparr>Header = [7],
      Transactions =
        [demo_tx 0 [demo_in 9 (Some [1, 0xEE]) [[0xDD]]] [\<lparr>Value = 50, PkScript = [1, 0xAA]\<rparr>],
         demo_tx 1 [demo_in 5 (Some [1, 0xBB]) [[0xCC]], demo_in 6 None []]
           [\<lparr>Value = 1, PkScript = [0x6A]\<rparr>]]\<rparr>"

definition demo_env :: env where
  "demo_env =
     \<lparr>Mkdir = None,
      Create = (\<lambda>i. None),
      WriteErr = (\<lambda>written c. None),
      MarshalErr = (\<lambda>row. None),
      ReadFile = None,
      NewClient = None,
      GetBlockHash = (\<lambda>h. Inr [word_of_int h]),
      GetBlock = (\<lambda>blockHash. Inr demo_block),
      GetCFilter = (\<lambda>blockHash t. Inr [0]),
      GetCFilterHeader = (\<lambda>blockHash t. Inr [0]),
      Serialize = (\<lambda>block. Inr (Header block)),
      BlockHash = (\<lambda>block. Header block),
      TxHash = (\<lambda>tx. [0xF0, ucast (Version tx)]),
      WriteOutPoint = (\<lambda>outpoint. Hash outpoint @ [ucast (Index outpoint)]),
      PushedData = demo_pushes,
      DefaultP = 0,
      DeriveKey = (\<lambda>keyHash. take 16 keyHash),
      KeyErr = (\<lambda>keyHash p. if 32 < p then Some ''P too big'' else None),
      BuildGCSFilter =
        (\<lambda>P key elems.
           if elems = [] then Inr None
           else Inr (Some \<lparr>f_n = of_nat (length (remdups elems)), f_p = P,
                           filterData = concat (remdups elems)\<rparr>)),
      GetFilterHash =
        (\<lambda>f. case f of None \<Rightarrow> Inr [0] | Some g \<Rightarrow> Inr (take 1 (filterData g))),
      DoubleHashH = (\<lambda>bs. take 2 bs),
      WriteVarInt = (\<lambda>k. [of_nat k]),
      HashToRange = (\<lambda>key e F. (length e + sum_list (map unat e)) mod F)\<rparr>"

definition demo_env_check :: env where
  "demo_env_check = demo_env\<lparr>DefaultP := 2\<rparr>"

text \<open>
  Two test heights, and the state in which main enters the loop over the heights in this
  world: slot 0 nil, and each of the 32 files holding its header comment.
\<close>

definition demo_heights :: "testBlockCase list" where
  "demo_heights = [\<lparr>height = 0, comment = ''first''\<rparr>, \<lparr>height = 2, comment = ''third''\<rparr>]"

definition demo_writer :: JSONTestWriter where
  "demo_writer =
     \<lparr>writer = [Text (''['' @ newline), Json [JStr header_comment]], firstRowWritten = True\<rparr>"

definition demo_state :: state where
  "demo_state = init_state\<lparr>files := None # replicate 32 (Some demo_writer)\<rparr>"

definition demo_block1 :: MsgBlock where
  "demo_block1 =
     \<lparr>Header = [8],
      Transactions = [demo_tx 0 [demo_in 9 (Some [1, 0xEE]) [[0xDD]]] [\<lparr>Value = 50, PkScript = [1, 0xAA]\<rparr>]]\<rparr>"

definition slot_eq :: "nat \<Rightarrow> state \<Rightarrow> state \<Rightarrow> bool" where
  "slot_eq i s t \<longleftrightarrow>
     files s ! i = files t ! i
     \<and> prevBasicHeaders s ! i = prevBasicHeaders t ! i
     \<and> prevExtHeaders s ! i = prevExtHeaders t ! i
     \<and> length (files s) = length (files t)
     \<and> length (prevBasicHeaders s) = length (prevBasicHeaders t)
     \<and> length (prevExtHeaders s) = length (prevExtHeaders t)"

definition never_fails :: "env \<Rightarrow> bool" where
  "never_fails E \<longleftrightarrow>
     (\<forall>h. \<exists>x. GetBlockHash E h = Inr x)
     \<and> (\<forall>x. \<exists>b. GetBlock E x = Inr b)
     \<and> (\<forall>b. \<exists>y. Serialize E b = Inr y)
     \<and> (\<forall>x i. 1 \<le> i \<and> i \<le> 32 \<longrightarrow> KeyErr E x (of_nat i) = None)
     \<and> (\<forall>p key d. \<exists>f. BuildGCSFilter E p key d = Inr f)
     \<and> (\<forall>f. \<exists>x. GetFilterHash E f = Inr x)
     \<and> (\<forall>w c. WriteErr E w c = None)
     \<and> (\<forall>r. MarshalErr E r = None)
     \<and> \<not> (1 \<le> DefaultP E \<and> DefaultP E \<le> 32)"

section \<open>Properties\<close>

subsection \<open>The element sets\<close>

lemma AddEntry_ok: "b_err b = None \<Longrightarrow> AddEntry d b = b\<lparr>b_data := b_data b @ [d]\<rparr>"
  by (simp add: AddEntry_def)

lemma fold_AddEntry_ok:
  "b_err b = None \<Longrightarrow> fold (\<lambda>x. AddEntry (f x)) xs b = b\<lparr>b_data := b_data b @ map f xs\<rparr>"
  by (induction xs arbitrary: b) (simp_all add: AddEntry_def)

lemma fold_AddOutPoint_ok:
  "b_err b = None \<Longrightarrow>
   fold (\<lambda>x. AddOutPoint E (f x)) xs b = b\<lparr>b_data := b_data b @ map (\<lambda>x. WriteOutPoint E (f x)) xs\<rparr>"
  by (induction xs arbitrary: b) (simp_all add: AddOutPoint_def AddEntry_def)

lemma AddEntries_ok: "b_err b = None \<Longrightarrow> AddEntries ds b = b\<lparr>b_data := b_data b @ ds\<rparr>"
  using fold_AddEntry_ok [of b "\<lambda>x. x" ds] by (simp add: AddEntries_def)

lemma basic_tx_ok:
  "b_err b = None \<Longrightarrow>
   basic_tx E i tx b =
     b\<lparr>b_data := b_data b @ [TxHash E tx]
         @ (if i \<noteq> 0 then map (\<lambda>x. WriteOutPoint E (PreviousOutPoint x)) (TxIn tx) else [])
         @ map PkScript (TxOut tx)\<rparr>"
  by (simp add: basic_tx_def AddHash_def AddEntry_ok fold_AddEntry_ok fold_AddOutPoint_ok Let_def)

lemma basic_txs_err: "b_err b = None \<Longrightarrow> b_err (basic_txs E k txs b) = None"
  by (induction txs arbitrary: k b) (simp_all add: basic_tx_ok)

lemma basic_txs_set:
  "b_err b = None \<Longrightarrow>
   set (b_data (basic_txs E k txs b)) =
     set (b_data b) \<union> TxHash E ` set txs
     \<union> {WriteOutPoint E (PreviousOutPoint txIn) | j txIn.
          j < length txs \<and> k + j \<noteq> 0 \<and> txIn \<in> set (TxIn (txs ! j))}
     \<union> {PkScript txOut | tx txOut. tx \<in> set txs \<and> txOut \<in> set (TxOut tx)}"
proof (induction txs arbitrary: k b)
  case Nil
  then show ?case by simp
next
  case (Cons tx txs)
  have e: "b_err (basic_tx E k tx b) = None"
    using Cons.prems by (simp add: basic_tx_ok)
  have ops: "{WriteOutPoint E (PreviousOutPoint txIn) | j txIn.
          j < length (tx # txs) \<and> k + j \<noteq> 0 \<and> txIn \<in> set (TxIn ((tx # txs) ! j))}
     = (if k \<noteq> 0 then (\<lambda>x. WriteOutPoint E (PreviousOutPoint x)) ` set (TxIn tx) else {})
       \<union> {WriteOutPoint E (PreviousOutPoint txIn) | j txIn.
          j < length txs \<and> Suc k + j \<noteq> 0 \<and> txIn \<in> set (TxIn (txs ! j))}"
    (is "?L = ?R")
  proof (rule set_eqI)
    fix d
    show "d \<in> ?L \<longleftrightarrow> d \<in> ?R"
    proof
      assume "d \<in> ?L"
      then obtain j txIn where j: "j < length (tx # txs)" "k + j \<noteq> 0"
        "txIn \<in> set (TxIn ((tx # txs) ! j))" "d = WriteOutPoint E (PreviousOutPoint txIn)"
        by blast
      show "d \<in> ?R"
      proof (cases j)
        case 0
        then show ?thesis using j by auto
      next
        case (Suc j')
        then show ?thesis using j by auto
      qed
    next
      assume "d \<in> ?R"
      then consider "k \<noteq> 0" "d \<in> (\<lambda>x. WriteOutPoint E (PreviousOutPoint x)) ` set (TxIn tx)"
        | j txIn where "j < length txs" "txIn \<in> set (TxIn (txs ! j))"
            "d = WriteOutPoint E (PreviousOutPoint txIn)"
        by (auto split: if_splits)
      then show "d \<in> ?L"
      proof cases
        case 1
        then obtain txIn where "txIn \<in> set (TxIn tx)" "d = WriteOutPoint E (PreviousOutPoint txIn)"
          by blast
        then have "0 < length (tx # txs) \<and> k + 0 \<noteq> 0 \<and> txIn \<in> set (TxIn ((tx # txs) ! 0))
            \<and> d = WriteOutPoint E (PreviousOutPoint txIn)"
          using 1 by simp
        then show ?thesis by blast
      next
        case 2
        then have "Suc j < length (tx # txs) \<and> k + Suc j \<noteq> 0 \<and> txIn \<in> set (TxIn ((tx # txs) ! Suc j))
            \<and> d = WriteOutPoint E (PreviousOutPoint txIn)"
          by simp
        then show ?thesis by blast
      qed
    qed
  qed
  have pk: "{PkScript txOut | t txOut. t \<in> set (tx # txs) \<and> txOut \<in> set (TxOut t)}
      = PkScript ` set (TxOut tx) \<union> {PkScript txOut | t txOut. t \<in> set txs \<and> txOut \<in> set (TxOut t)}"
    by auto
  show ?case
    unfolding basic_txs.simps Cons.IH [OF e] ops pk
    using Cons.prems by (auto simp: basic_tx_ok)
qed


lemma ext_txin_ok:
  "b_err b = None \<Longrightarrow>
   ext_txin E txIn b =
     b\<lparr>b_data := b_data b
         @ (case SignatureScript txIn of Some s \<Rightarrow> PushedData E s | None \<Rightarrow> [])
         @ Witness txIn\<rparr>"
  by (cases "SignatureScript txIn")
     (simp_all add: ext_txin_def AddScript_def AddWitness_def AddEntries_ok Let_def)

lemma fold_ext_txin_ok:
  "b_err b = None \<Longrightarrow>
   fold (ext_txin E) ins b =
     b\<lparr>b_data := b_data b
         @ concat (map (\<lambda>txIn. (case SignatureScript txIn of Some s \<Rightarrow> PushedData E s | None \<Rightarrow> [])
                              @ Witness txIn) ins)\<rparr>"
  by (induction ins arbitrary: b) (simp_all add: ext_txin_ok)

lemma ext_tx_ok:
  "b_err b = None \<Longrightarrow>
   b_err (ext_tx E i tx b) = None \<and>
   set (b_data (ext_tx E i tx b)) =
     set (b_data b) \<union> (if i \<noteq> 0 then (\<Union>txIn \<in> set (TxIn tx). txin_items E txIn) else {})"
  by (auto simp: ext_tx_def fold_ext_txin_ok txin_items_def split: option.splits)

lemma ext_txs_set:
  "b_err b = None \<Longrightarrow>
   set (b_data (ext_txs E k txs b)) =
     set (b_data b)
     \<union> {d. \<exists>j txIn. j < length txs \<and> k + j \<noteq> 0 \<and> txIn \<in> set (TxIn (txs ! j))
            \<and> d \<in> txin_items E txIn}"
proof (induction txs arbitrary: k b)
  case Nil
  then show ?case by simp
next
  case (Cons tx txs)
  note step = ext_tx_ok [OF Cons.prems, of E k tx]
  have split: "{d. \<exists>j txIn. j < length (tx # txs) \<and> k + j \<noteq> 0 \<and> txIn \<in> set (TxIn ((tx # txs) ! j))
            \<and> d \<in> txin_items E txIn}
     = (if k \<noteq> 0 then (\<Union>txIn \<in> set (TxIn tx). txin_items E txIn) else {})
       \<union> {d. \<exists>j txIn. j < length txs \<and> Suc k + j \<noteq> 0 \<and> txIn \<in> set (TxIn (txs ! j))
            \<and> d \<in> txin_items E txIn}"
    (is "?L = ?R")
  proof (rule set_eqI)
    fix d
    show "d \<in> ?L \<longleftrightarrow> d \<in> ?R"
    proof
      assume "d \<in> ?L"
      then obtain j txIn where j: "j < length (tx # txs)" "k + j \<noteq> 0"
        "txIn \<in> set (TxIn ((tx # txs) ! j))" "d \<in> txin_items E txIn"
        by blast
      show "d \<in> ?R"
      proof (cases j)
        case 0
        then show ?thesis using j by auto
      next
        case (Suc j')
        then show ?thesis using j by auto
      qed
    next
      assume "d \<in> ?R"
      then consider txIn where "k \<noteq> 0" "txIn \<in> set (TxIn tx)" "d \<in> txin_items E txIn"
        | j txIn where "j < length txs" "txIn \<in> set (TxIn (txs ! j))" "d \<in> txin_items E txIn"
        by (auto split: if_splits)
      then show "d \<in> ?L"
      proof cases
        case 1
        then have "0 < length (tx # txs) \<and> k + 0 \<noteq> 0 \<and> txIn \<in> set (TxIn ((tx # txs) ! 0))
            \<and> d \<in> txin_items E txIn"
          by simp
        then show ?thesis by blast
      next
        case 2
        then have "Suc j < length (tx # txs) \<and> k + Suc j \<noteq> 0
            \<and> txIn \<in> set (TxIn ((tx # txs) ! Suc j)) \<and> d \<in> txin_items E txIn"
          by simp
        then show ?thesis by blast
      qed
    qed
  qed
  show ?case
    unfolding ext_txs.simps Cons.IH [OF conjunct1 [OF step]] conjunct2 [OF step] split
    by auto
qed

lemma ext_txs_coinbase: "ext_txs E 0 (tx # txs) b = ext_txs E 0 (tx' # txs) b"
  by (simp add: ext_tx_def)

lemma buildBasicFilter_elements:
  "KeyErr E (BlockHash E block) p = None \<Longrightarrow>
   buildBasicFilter E block p =
     BuildGCSFilter E p (DeriveKey E (BlockHash E block)) (basic_elements E block p)"
proof -
  assume k: "KeyErr E (BlockHash E block) p = None"
  let ?b = "WithKeyHashP E (BlockHash E block) p"
  have e: "b_err ?b = None" using k by (simp add: WithKeyHashP_def)
  have "b_err (basic_txs E 0 (Transactions block) ?b) = None"
    by (rule basic_txs_err [OF e])
  moreover have "b_p (basic_txs E k' txs b) = b_p b \<and> b_key (basic_txs E k' txs b) = b_key b"
    if "b_err b = None" for k' txs b
    using that by (induction txs arbitrary: k' b) (simp_all add: basic_tx_ok)
  ultimately show ?thesis
    using e by (simp add: buildBasicFilter_def Key_def Build_def basic_elements_def Let_def)
      (simp add: WithKeyHashP_def)
qed

lemma ext_txs_keep:
  "b_err b = None \<Longrightarrow>
   b_err (ext_txs E k txs b) = None \<and> b_p (ext_txs E k txs b) = b_p b
   \<and> b_key (ext_txs E k txs b) = b_key b"
proof (induction txs arbitrary: k b)
  case Nil
  then show ?case by simp
next
  case (Cons tx txs)
  have "b_err (ext_tx E k tx b) = None \<and> b_p (ext_tx E k tx b) = b_p b
      \<and> b_key (ext_tx E k tx b) = b_key b"
    using Cons.prems by (simp add: ext_tx_def fold_ext_txin_ok)
  then show ?case using Cons.IH [of "ext_tx E k tx b" "Suc k"] by simp
qed

lemma buildExtFilter_elements:
  "KeyErr E (BlockHash E block) p = None \<Longrightarrow>
   buildExtFilter E block p =
     BuildGCSFilter E p (DeriveKey E (BlockHash E block)) (ext_elements E block p)"
proof -
  assume k: "KeyErr E (BlockHash E block) p = None"
  let ?b = "WithKeyHashP E (BlockHash E block) p"
  have e: "b_err ?b = None" using k by (simp add: WithKeyHashP_def)
  show ?thesis
    using e ext_txs_keep [OF e, of E 0 "Transactions block"]
    by (simp add: buildExtFilter_def Key_def Build_def ext_elements_def Let_def)
      (simp add: WithKeyHashP_def)
qed

lemma basic_elements_set:
  "KeyErr E (BlockHash E block) p = None \<Longrightarrow>
   set (basic_elements E block p) =
     TxHash E ` set (Transactions block)
     \<union> {WriteOutPoint E (PreviousOutPoint txIn) | i txIn.
          0 < i \<and> i < length (Transactions block) \<and> txIn \<in> set (TxIn (Transactions block ! i))}
     \<union> {PkScript txOut | tx txOut. tx \<in> set (Transactions block) \<and> txOut \<in> set (TxOut tx)}"
proof -
  assume k: "KeyErr E (BlockHash E block) p = None"
  let ?b = "WithKeyHashP E (BlockHash E block) p"
  have e: "b_err ?b = None" using k by (simp add: WithKeyHashP_def)
  have d: "b_data ?b = []" by (simp add: WithKeyHashP_def)
  show ?thesis
    unfolding basic_elements_def basic_txs_set [OF e] d by auto
qed

lemma ext_elements_set:
  "KeyErr E (BlockHash E block) p = None \<Longrightarrow>
   set (ext_elements E block p) =
     {d. \<exists>i txIn. 0 < i \<and> i < length (Transactions block)
          \<and> txIn \<in> set (TxIn (Transactions block ! i)) \<and> d \<in> txin_items E txIn}"
proof -
  assume k: "KeyErr E (BlockHash E block) p = None"
  let ?b = "WithKeyHashP E (BlockHash E block) p"
  have e: "b_err ?b = None" using k by (simp add: WithKeyHashP_def)
  have d: "b_data ?b = []" by (simp add: WithKeyHashP_def)
  show ?thesis
    unfolding ext_elements_def ext_txs_set [OF e] d by auto
qed

lemmas demo_simps = demo_env_def demo_block_def demo_tx_def demo_in_def demo_pushes_def
  basic_elements_def ext_elements_def WithKeyHashP_def basic_tx_def ext_tx_def ext_txin_def
  AddHash_def AddEntry_def AddEntries_def AddOutPoint_def AddScript_def AddWitness_def

text \<open>
  Claim C1. The claim says that an output gives the basic filter each data item pushed by
  its locking script, and nothing for an opcode that pushes no data. buildBasicFilter hands
  the whole locking script to \<open>AddEntry\<close> (line 314), so the script itself is the
  element. On the block \<open>demo_block\<close> the coinbase output has the script \<open>01 aa\<close>,
  which pushes \<open>aa\<close>, and the second transaction has the script \<open>6a\<close>, which pushes
  nothing: the builder holds both scripts whole, and does not hold \<open>aa\<close>.
\<close>

theorem basic_filter_adds_whole_script:
  "basic_elements demo_env demo_block 19
     = [[0xF0, 0], [1, 0xAA], [0xF0, 1], [5, 0], [6, 0], [0x6A]]
   \<and> PushedData demo_env [1, 0xAA] = [[0xAA]]
   \<and> PushedData demo_env [0x6A] = []
   \<and> [0xAA] \<notin> set (basic_elements demo_env demo_block 19)
   \<and> buildBasicFilter demo_env demo_block 19
       = BuildGCSFilter demo_env 19 (DeriveKey demo_env (BlockHash demo_env demo_block))
           [[0xF0, 0], [1, 0xAA], [0xF0, 1], [5, 0], [6, 0], [0x6A]]"
  by (simp add: demo_simps buildBasicFilter_def Key_def Build_def Let_def)

text \<open>
  Claim C2. When the key can be derived, buildExtFilter builds the filter from exactly the
  items of the inputs of the transactions after the first: the data pushed by the signature
  script, when there is one, and the items of the witness stack. In the basic filter the
  outpoints come from the transactions after the first only. Whatever the first transaction
  holds, the extended builder ends in the same state.
\<close>

theorem ext_filter_elements:
  "KeyErr E (BlockHash E block) p = None \<Longrightarrow>
   buildExtFilter E block p
     = BuildGCSFilter E p (DeriveKey E (BlockHash E block)) (ext_elements E block p)
   \<and> set (ext_elements E block p) =
       {d. \<exists>i txIn. 0 < i \<and> i < length (Transactions block)
            \<and> txIn \<in> set (TxIn (Transactions block ! i)) \<and> d \<in> txin_items E txIn}
   \<and> set (basic_elements E block p) =
       TxHash E ` set (Transactions block)
       \<union> {WriteOutPoint E (PreviousOutPoint txIn) | i txIn.
            0 < i \<and> i < length (Transactions block) \<and> txIn \<in> set (TxIn (Transactions block ! i))}
       \<union> {PkScript txOut | tx txOut. tx \<in> set (Transactions block) \<and> txOut \<in> set (TxOut tx)}
   \<and> (\<forall>tx tx' txs b. ext_txs E 0 (tx # txs) b = ext_txs E 0 (tx' # txs) b)"
proof -
  assume k: "KeyErr E (BlockHash E block) p = None"
  note a = buildExtFilter_elements [OF k] and b = ext_elements_set [OF k]
    and c = basic_elements_set [OF k]
  show ?thesis
    by (intro conjI allI) (rule a b c ext_txs_coinbase)+
qed

text \<open>On \<open>demo_block\<close>, only the second transaction's first input has anything to give.\<close>

theorem ext_filter_elements_witness:
  "KeyErr demo_env (BlockHash demo_env demo_block) 19 = None
   \<and> buildExtFilter demo_env demo_block 19
       = BuildGCSFilter demo_env 19 (DeriveKey demo_env (BlockHash demo_env demo_block))
           (ext_elements demo_env demo_block 19)
   \<and> ext_elements demo_env demo_block 19 = [[0xBB], [0xCC]]"
proof -
  have k: "KeyErr demo_env (BlockHash demo_env demo_block) 19 = None"
    by (simp add: demo_env_def)
  have v: "ext_elements demo_env demo_block 19 = [[0xBB], [0xCC]]"
    by (simp add: demo_simps)
  note t = ext_filter_elements [OF k]
  show ?thesis
    by (intro conjI) (rule k conjunct1 [OF t] v)+
qed

subsection \<open>One step of the loop over P\<close>

lemma upd_slot_sel:
  "files (upd_slot j f b e st) = (files st)[j := f]"
  "prevBasicHeaders (upd_slot j f b e st) = (prevBasicHeaders st)[j := b]"
  "prevExtHeaders (upd_slot j f b e st) = (prevExtHeaders st)[j := e]"
  by (simp_all add: upd_slot_def)

lemma filters_and_headers_upd:
  "j \<noteq> i \<Longrightarrow> filters_and_headers E block i (upd_slot j f b e st) = filters_and_headers E block i st"
  by (simp add: filters_and_headers_def upd_slot_sel cong: sum.case_cong)

lemma emit_row_upd:
  assumes "j \<noteq> i"
  shows "emit_row E tbh k h blockHash blockBytes i bf bhd ef ehd (upd_slot j f b e st)
    = apsnd (upd_slot j f b e) (emit_row E tbh k h blockHash blockBytes i bf bhd ef ehd st)"
  using assms
  by (simp add: emit_row_def Let_def upd_slot_def list_update_swap [of i j]
      split: sum.splits option.splits prod.splits)

lemma process_P_upd:
  assumes "j \<noteq> i"
  shows "process_P E tbh k h blockHash block blockBytes i (upd_slot j f b e st)
    = apsnd (upd_slot j f b e) (process_P E tbh k h blockHash block blockBytes i st)"
proof (cases "filters_and_headers E block i st")
  case (Inl a)
  then show ?thesis
    by (simp add: process_P_def filters_and_headers_upd [OF assms])
next
  case (Inr v)
  obtain bf bhd ef ehd where v: "v = (bf, bhd, ef, ehd)" by (cases v)
  obtain a st1 where em: "emit_row E tbh k h blockHash blockBytes i bf bhd ef ehd st = (a, st1)"
    by (cases "emit_row E tbh k h blockHash blockBytes i bf bhd ef ehd st")
  have sw: "(upd_slot j f b e st1)\<lparr>prevBasicHeaders := (prevBasicHeaders (upd_slot j f b e st1))[i := bhd],
          prevExtHeaders := (prevExtHeaders (upd_slot j f b e st1))[i := ehd]\<rparr>
      = upd_slot j f b e (st1\<lparr>prevBasicHeaders := (prevBasicHeaders st1)[i := bhd],
          prevExtHeaders := (prevExtHeaders st1)[i := ehd]\<rparr>)"
    using assms by (simp add: upd_slot_def list_update_swap [of i j])
  obtain c where c: "(if i = DefaultP E then verify_against_server E blockHash bf bhd ef ehd else None) = c"
    by simp
  have L: "process_P E tbh k h blockHash block blockBytes i (upd_slot j f b e st)
      = (case c of
           Some x \<Rightarrow> (Some x, upd_slot j f b e st)
         | None \<Rightarrow>
             (case a of
                Some x \<Rightarrow> (Some x, upd_slot j f b e st1)
              | None \<Rightarrow>
                  (None, upd_slot j f b e (st1\<lparr>prevBasicHeaders := (prevBasicHeaders st1)[i := bhd],
                     prevExtHeaders := (prevExtHeaders st1)[i := ehd]\<rparr>))))"
    by (simp add: process_P_def filters_and_headers_upd [OF assms] emit_row_upd [OF assms]
        Inr v em sw c split: option.splits split del: if_split)
  have R: "process_P E tbh k h blockHash block blockBytes i st
      = (case c of
           Some x \<Rightarrow> (Some x, st)
         | None \<Rightarrow>
             (case a of
                Some x \<Rightarrow> (Some x, st1)
              | None \<Rightarrow>
                  (None, st1\<lparr>prevBasicHeaders := (prevBasicHeaders st1)[i := bhd],
                     prevExtHeaders := (prevExtHeaders st1)[i := ehd]\<rparr>)))"
    by (simp add: process_P_def Inr v em c split: option.splits split del: if_split)
  show ?thesis
    unfolding L R by (simp split: option.splits)
qed

lemma P_loop_upd:
  "j \<notin> set is \<Longrightarrow>
   P_loop E tbh k h blockHash block blockBytes is (upd_slot j f b e st)
     = apsnd (upd_slot j f b e) (P_loop E tbh k h blockHash block blockBytes is st)"
proof (induction "is" arbitrary: st)
  case Nil
  then show ?case by simp
next
  case (Cons i "is")
  then have ji: "j \<noteq> i" and jis: "j \<notin> set is" by auto
  show ?case
    by (simp add: process_P_upd [OF ji] Cons.IH [OF jis] split: prod.splits option.splits)
qed

lemma main_loop_upd:
  "main_loop E tbh k h (upd_slot 0 f b e st)
     = (case main_loop E tbh k h st of (a, h', k', st') \<Rightarrow> (a, h', k', upd_slot 0 f b e st'))"
proof (induction E tbh k h st rule: main_loop.induct)
  case (1 E tbh k h st)
  note unf = main_loop.simps [of E tbh k h]
  have z: "0 \<notin> set [1..<33]" by simp
  show ?case
  proof (cases "k < length tbh")
    case False
    then show ?thesis by (simp add: unf)
  next
    case k: True
    show ?thesis
    proof (cases "GetBlockHash E h")
      case (Inl err)
      then show ?thesis using k by (simp add: unf)
    next
      case bh: (Inr blockHash)
      show ?thesis
      proof (cases "GetBlock E blockHash")
        case (Inl err)
        then show ?thesis using k bh by (simp add: unf)
      next
        case blk: (Inr block)
        show ?thesis
        proof (cases "Serialize E block")
          case (Inl err)
          then show ?thesis using k bh blk by (simp add: unf)
        next
          case bb: (Inr blockBytes)
          obtain a st' where pl: "P_loop E tbh k h blockHash block blockBytes [1..<33] st = (a, st')"
            by (cases "P_loop E tbh k h blockHash block blockBytes [1..<33] st")
          have plu: "P_loop E tbh k h blockHash block blockBytes [1..<33] (upd_slot 0 f b e st)
              = (a, upd_slot 0 f b e st')"
            by (simp only: P_loop_upd [OF z] pl apsnd_conv)
          show ?thesis
          proof (cases a)
            case (Some ab)
            then show ?thesis using k bh blk bb pl plu by (simp add: unf)
          next
            case None
            show ?thesis
            proof (cases "(word_of_int h :: 32 word) = height (tbh ! k)")
              case True
              from "1.IH"(1) [OF k bh blk bb pl [symmetric] None True]
              show ?thesis using k bh blk bb pl plu None True by (simp add: unf)
            next
              case False
              from "1.IH"(2) [OF k bh blk bb pl [symmetric] None False]
              show ?thesis using k bh blk bb pl plu None False by (simp add: unf)
            qed
          qed
        qed
      qed
    qed
  qed
qed


lemma WriteTestCase_NoneD:
  "WriteTestCase E w row = (None, w') \<Longrightarrow>
   w' = \<lparr>writer = writer w @ [Text ((if firstRowWritten w then '','' else ''['') @ newline), Json row],
         firstRowWritten = True\<rparr>"
  by (auto simp: WriteTestCase_def Let_def split: option.splits if_splits)

lemma emit_row_headers:
  "emit_row E tbh k h blockHash blockBytes i bf bhd ef ehd st = (a, st1) \<Longrightarrow>
   prevBasicHeaders st1 = prevBasicHeaders st \<and> prevExtHeaders st1 = prevExtHeaders st
   \<and> length (files st1) = length (files st)"
  by (auto simp: emit_row_def Let_def split: if_splits sum.splits option.splits prod.splits)

lemma emit_row_skip:
  "(word_of_int h :: 32 word) \<noteq> height (tbh ! k) \<Longrightarrow>
   emit_row E tbh k h blockHash blockBytes i bf bhd ef ehd st = (None, st)"
  by (simp add: emit_row_def)

lemma emit_row_NoneD:
  "emit_row E tbh k h blockHash blockBytes i bf bhd ef ehd st = (None, st1) \<Longrightarrow>
   (word_of_int h :: 32 word) = height (tbh ! k) \<Longrightarrow>
   \<exists>w w' nb ne. NBytes E bf = Inr nb \<and> NBytes E ef = Inr ne \<and> files st ! i = Some w
     \<and> WriteTestCase E w (test_row tbh k h blockHash blockBytes
           (prevBasicHeaders st ! i) (prevExtHeaders st ! i) nb ne bhd ehd) = (None, w')
     \<and> st1 = st\<lparr>files := (files st)[i := Some w']\<rparr>"
  by (auto simp: emit_row_def Let_def split: if_splits sum.splits option.splits prod.splits)

lemma process_P_NoneD:
  "process_P E tbh k h blockHash block blockBytes i st = (None, st') \<Longrightarrow>
   \<exists>bf bhd ef ehd st1.
     filters_and_headers E block i st = Inr (bf, bhd, ef, ehd)
     \<and> (i = DefaultP E \<longrightarrow> verify_against_server E blockHash bf bhd ef ehd = None)
     \<and> emit_row E tbh k h blockHash blockBytes i bf bhd ef ehd st = (None, st1)
     \<and> st' = st1\<lparr>prevBasicHeaders := (prevBasicHeaders st1)[i := bhd],
                  prevExtHeaders := (prevExtHeaders st1)[i := ehd]\<rparr>"
  by (auto simp: process_P_def split: sum.splits option.splits prod.splits if_splits)

lemma process_P_SomeD:
  "process_P E tbh k h blockHash block blockBytes i st = (Some a, st') \<Longrightarrow>
   prevBasicHeaders st' = prevBasicHeaders st \<and> prevExtHeaders st' = prevExtHeaders st"
  by (auto simp: process_P_def split: sum.splits option.splits prod.splits if_splits
      dest: emit_row_headers)

lemma filters_and_headers_InrD:
  "filters_and_headers E block i st = Inr (bf, bhd, ef, ehd) \<Longrightarrow>
   \<exists>rb re.
     buildBasicFilter E block (of_nat i) = Inr rb
     \<and> MakeHeaderForFilter E rb (prevBasicHeaders st ! i) = Inr bhd
     \<and> bf = (case rb of None \<Rightarrow> emptyFilter | Some f \<Rightarrow> f)
     \<and> buildExtFilter E block (of_nat i) = Inr re
     \<and> MakeHeaderForFilter E re (prevExtHeaders st ! i) = Inr ehd
     \<and> ef = (case re of None \<Rightarrow> emptyFilter | Some f \<Rightarrow> f)"
  by (auto simp: filters_and_headers_def Let_def split: sum.splits)

lemma verify_NoneD:
  "verify_against_server E blockHash bf bhd ef ehd = None \<Longrightarrow>
   GetCFilter E blockHash GCSFilterRegular = NBytes E bf
   \<and> GetCFilter E blockHash GCSFilterExtended = NBytes E ef
   \<and> GetCFilterHeader E blockHash GCSFilterRegular = Inr bhd
   \<and> GetCFilterHeader E blockHash GCSFilterExtended = Inr ehd"
  by (auto simp: verify_against_server_def split: sum.splits if_splits)

lemma process_P_length:
  "process_P E tbh k h blockHash block blockBytes i st = (a, st') \<Longrightarrow>
   length (files st') = length (files st)
   \<and> length (prevBasicHeaders st') = length (prevBasicHeaders st)
   \<and> length (prevExtHeaders st') = length (prevExtHeaders st)"
  by (auto simp: process_P_def split: sum.splits option.splits prod.splits if_splits
      dest: emit_row_headers)

lemma P_loop_length:
  "P_loop E tbh k h blockHash block blockBytes is st = (a, st') \<Longrightarrow>
   length (files st') = length (files st)
   \<and> length (prevBasicHeaders st') = length (prevBasicHeaders st)
   \<and> length (prevExtHeaders st') = length (prevExtHeaders st)"
proof (induction "is" arbitrary: st)
  case Nil
  then show ?case by simp
next
  case (Cons i "is")
  obtain b s1 where p: "process_P E tbh k h blockHash block blockBytes i st = (b, s1)"
    by (cases "process_P E tbh k h blockHash block blockBytes i st")
  show ?case
  proof (cases b)
    case None
    with Cons.prems p have "P_loop E tbh k h blockHash block blockBytes is s1 = (a, st')"
      by simp
    from Cons.IH [OF this] process_P_length [OF p] show ?thesis by simp
  next
    case (Some x)
    with Cons.prems p have "st' = s1" by simp
    with process_P_length [OF p] show ?thesis by simp
  qed
qed


lemmas run_simps = demo_simps demo_heights_def demo_writer_def demo_state_def init_state_def
  zeroHash_def process_P_def filters_and_headers_def emit_row_def test_row_def
  buildBasicFilter_def buildExtFilter_def Key_def Build_def MakeHeaderForFilter_def NBytes_def
  WriteTestCase_def emptyFilter_def Hash_String_def EncodeToString_def hexdigit_def newline_def
  verify_against_server_def Let_def




text \<open>
  Claim C8. When the body of the loop over P completes for one P, the two previous headers
  of that P are replaced by the two headers just made, and by nothing else; at a test
  height the file of that P has got one more row, which holds the previous headers as they
  were before the step and the new headers as they are after it. When the body aborts, the
  previous headers are as before.
\<close>

theorem row_records_chain_state:
  assumes "process_P E tbh k h blockHash block blockBytes i st = (a, st')"
    and "i < length (prevBasicHeaders st)" and "i < length (prevExtHeaders st)"
    and "i < length (files st)"
  shows "(a = None \<longrightarrow>
           (\<exists>bf bhd ef ehd.
              filters_and_headers E block i st = Inr (bf, bhd, ef, ehd)
              \<and> prevBasicHeaders st' = (prevBasicHeaders st)[i := bhd]
              \<and> prevExtHeaders st' = (prevExtHeaders st)[i := ehd]
              \<and> ((word_of_int h :: 32 word) \<noteq> height (tbh ! k) \<longrightarrow> files st' = files st)
              \<and> ((word_of_int h :: 32 word) = height (tbh ! k) \<longrightarrow>
                   (\<exists>w sep nb ne.
                      files st ! i = Some w \<and> NBytes E bf = Inr nb \<and> NBytes E ef = Inr ne
                      \<and> files st' = (files st)[i := Some
                           \<lparr>writer = writer w @ [Text sep, Json (test_row tbh k h blockHash blockBytes
                               (prevBasicHeaders st ! i) (prevExtHeaders st ! i) nb ne
                               (prevBasicHeaders st' ! i) (prevExtHeaders st' ! i))],
                            firstRowWritten = True\<rparr>]))))
       \<and> (a \<noteq> None \<longrightarrow>
            prevBasicHeaders st' = prevBasicHeaders st \<and> prevExtHeaders st' = prevExtHeaders st)"
proof (cases a)
  case (Some x)
  with assms(1) process_P_SomeD show ?thesis by simp
next
  case None
  with assms(1) obtain bf bhd ef ehd st1 where
    fh: "filters_and_headers E block i st = Inr (bf, bhd, ef, ehd)"
    and em: "emit_row E tbh k h blockHash blockBytes i bf bhd ef ehd st = (None, st1)"
    and st': "st' = st1\<lparr>prevBasicHeaders := (prevBasicHeaders st1)[i := bhd],
                  prevExtHeaders := (prevExtHeaders st1)[i := ehd]\<rparr>"
    using process_P_NoneD by blast
  note hd = emit_row_headers [OF em]
  have pb: "prevBasicHeaders st' = (prevBasicHeaders st)[i := bhd]"
    and pe: "prevExtHeaders st' = (prevExtHeaders st)[i := ehd]"
    and fl: "files st' = files st1"
    using st' hd by simp_all
  have skip: "files st' = files st" if "(word_of_int h :: 32 word) \<noteq> height (tbh ! k)"
    using emit_row_skip [OF that, of E blockHash blockBytes i bf bhd ef ehd st] em fl by simp
  have row: "\<exists>w sep nb ne.
      files st ! i = Some w \<and> NBytes E bf = Inr nb \<and> NBytes E ef = Inr ne
      \<and> files st' = (files st)[i := Some
           \<lparr>writer = writer w @ [Text sep, Json (test_row tbh k h blockHash blockBytes
               (prevBasicHeaders st ! i) (prevExtHeaders st ! i) nb ne
               (prevBasicHeaders st' ! i) (prevExtHeaders st' ! i))],
            firstRowWritten = True\<rparr>]"
    if m: "(word_of_int h :: 32 word) = height (tbh ! k)"
  proof -
    from emit_row_NoneD [OF em m] obtain w w' nb ne where
      n: "NBytes E bf = Inr nb" "NBytes E ef = Inr ne" "files st ! i = Some w"
      and wt: "WriteTestCase E w (test_row tbh k h blockHash blockBytes
           (prevBasicHeaders st ! i) (prevExtHeaders st ! i) nb ne bhd ehd) = (None, w')"
      and s1: "st1 = st\<lparr>files := (files st)[i := Some w']\<rparr>"
      by blast
    have "prevBasicHeaders st' ! i = bhd" "prevExtHeaders st' ! i = ehd"
      using pb pe assms(2,3) by simp_all
    with WriteTestCase_NoneD [OF wt] n s1 fl show ?thesis by auto
  qed
  show ?thesis using None fh pb pe skip row by blast
qed

theorem row_records_chain_state_witness:
  "process_P demo_env demo_heights 0 0 [0] demo_block [7] 1 demo_state
     = (None, demo_state\<lparr>files := (files demo_state)[1 := Some
          \<lparr>writer = writer demo_writer @ [Text ('','' @ newline),
             Json (test_row demo_heights 0 0 [0] [7] zeroHash zeroHash
               [6, 0xF0, 0, 1, 0xAA, 0xF0, 1, 5, 0, 6, 0, 0x6A] [2, 0xBB, 0xCC] [0xF0, 0] [0xBB, 0])],
           firstRowWritten = True\<rparr>],
        prevBasicHeaders := (prevBasicHeaders demo_state)[1 := [0xF0, 0]],
        prevExtHeaders := (prevExtHeaders demo_state)[1 := [0xBB, 0]]\<rparr>)
   \<and> (\<exists>bf bhd ef ehd.
         filters_and_headers demo_env demo_block 1 demo_state = Inr (bf, bhd, ef, ehd)
         \<and> prevBasicHeaders (snd (process_P demo_env demo_heights 0 0 [0] demo_block [7] 1 demo_state))
             = (prevBasicHeaders demo_state)[1 := bhd])"
proof -
  have run: "process_P demo_env demo_heights 0 0 [0] demo_block [7] 1 demo_state
     = (None, demo_state\<lparr>files := (files demo_state)[1 := Some
          \<lparr>writer = writer demo_writer @ [Text ('','' @ newline),
             Json (test_row demo_heights 0 0 [0] [7] zeroHash zeroHash
               [6, 0xF0, 0, 1, 0xAA, 0xF0, 1, 5, 0, 6, 0, 0x6A] [2, 0xBB, 0xCC] [0xF0, 0] [0xBB, 0])],
           firstRowWritten = True\<rparr>],
        prevBasicHeaders := (prevBasicHeaders demo_state)[1 := [0xF0, 0]],
        prevExtHeaders := (prevExtHeaders demo_state)[1 := [0xBB, 0]]\<rparr>)"
    by code_simp
  have l: "1 < length (prevBasicHeaders demo_state)" "1 < length (prevExtHeaders demo_state)"
    "1 < length (files demo_state)"
    by (simp_all add: demo_state_def init_state_def)
  from row_records_chain_state [OF run l] run show ?thesis by auto
qed

subsection \<open>The encoder and the empty filter\<close>

lemma sort_map_remdups_cong:
  assumes "set xs = set ys"
  shows "sort (map f (remdups xs)) = sort (map f (remdups ys))"
proof -
  have "mset (remdups xs) = mset (remdups ys)"
    using assms by (simp add: set_eq_iff_mset_remdups_eq)
  then have "mset (map f (remdups ys)) = mset (map f (remdups xs))"
    by simp
  then show ?thesis
    by (intro properties_for_sort) simp_all
qed

lemma length_remdups_cong: "set xs = set ys \<Longrightarrow> length (remdups xs) = length (remdups ys)"
  by (simp add: length_remdups_card_conv)

text \<open>
  Claim C5. The encoder is a function of the key, P and the set of elements: two element
  lists with the same set, in any order and with any repetitions, give the same filter and
  the same filter bytes.
\<close>

theorem gcs_build_order_independent:
  assumes "set elems = set elems'"
  shows "BuildGCSFilter_spec E P key elems = BuildGCSFilter_spec E P key elems'
       \<and> NBytes E (BuildGCSFilter_spec E P key elems) = NBytes E (BuildGCSFilter_spec E P key elems')"
proof -
  have n: "length (remdups elems) = length (remdups elems')"
    by (rule length_remdups_cong [OF assms])
  have "BuildGCSFilter_spec E P key elems = BuildGCSFilter_spec E P key elems'"
    unfolding BuildGCSFilter_spec_def Let_def n
    by (simp only: sort_map_remdups_cong [OF assms])
  then show ?thesis by simp
qed

theorem gcs_build_order_independent_witness:
  "set [[1], [2, 3], [1], [9, 9, 9 :: 8 word]] = set [[9, 9, 9], [2, 3], [1]]
   \<and> BuildGCSFilter_spec demo_env 2 [] [[1], [2, 3], [1], [9, 9, 9]]
       = BuildGCSFilter_spec demo_env 2 [] [[9, 9, 9], [2, 3], [1]]
   \<and> BuildGCSFilter_spec demo_env 2 [] [[9, 9, 9], [2, 3], [1]]
       = \<lparr>f_n = 3, f_p = 2, filterData = [80, 64]\<rparr>"
proof -
  have v: "BuildGCSFilter_spec demo_env 2 [] [[9, 9, 9], [2, 3], [1]]
       = \<lparr>f_n = 3, f_p = 2, filterData = [80, 64]\<rparr>"
    by code_simp
  have s: "set [[1], [2, 3], [1], [9, 9, 9 :: 8 word]] = set [[9, 9, 9], [2, 3], [1]]"
    by auto
  from gcs_build_order_independent [OF s] s v show ?thesis by blast
qed

lemma NBytes_empty: "NBytes E emptyFilter = Inr (WriteVarInt E 0)"
  by (simp add: NBytes_def emptyFilter_def)

lemma NBytes_spec_empty: "NBytes E (BuildGCSFilter_spec E P key []) = Inr (WriteVarInt E 0)"
  by (simp add: NBytes_def BuildGCSFilter_spec_def)

lemma buildBasicFilter_InrD:
  "buildBasicFilter E block p = Inr r \<Longrightarrow> KeyErr E (BlockHash E block) p = None"
  by (auto simp: buildBasicFilter_def Key_def WithKeyHashP_def Let_def split: option.splits)

lemma buildExtFilter_InrD:
  "buildExtFilter E block p = Inr r \<Longrightarrow> KeyErr E (BlockHash E block) p = None"
  by (auto simp: buildExtFilter_def Key_def WithKeyHashP_def Let_def split: option.splits)

text \<open>
  Claim C6. The filter that the driver goes on with is a filter value, never nil. When a
  block gives no elements to a filter, and the encoder answers an empty element list with
  nil or with the encoding of no elements, the bytes of that filter are the count prefix of
  0 followed by nothing. \<open>NBytes\<close> gives bytes for every filter value, for the empty
  filter that was never built as for a filter that \<open>Build\<close> returned.
\<close>

theorem empty_filter_bytes:
  assumes "filters_and_headers E block i st = Inr (bf, bhd, ef, ehd)"
    and "BuildGCSFilter E (of_nat i) (DeriveKey E (BlockHash E block)) [] = Inr None
       \<or> BuildGCSFilter E (of_nat i) (DeriveKey E (BlockHash E block)) []
           = Inr (Some (BuildGCSFilter_spec E (of_nat i) (DeriveKey E (BlockHash E block)) []))"
  shows "(basic_elements E block (of_nat i) = [] \<longrightarrow> NBytes E bf = Inr (WriteVarInt E 0))
       \<and> (ext_elements E block (of_nat i) = [] \<longrightarrow> NBytes E ef = Inr (WriteVarInt E 0))
       \<and> NBytes E emptyFilter = Inr (WriteVarInt E 0)
       \<and> (\<forall>f. \<exists>bs. NBytes E f = Inr bs)"
proof -
  let ?key = "DeriveKey E (BlockHash E block)"
  from filters_and_headers_InrD [OF assms(1)] obtain rb re where
    b: "buildBasicFilter E block (of_nat i) = Inr rb"
    and bf: "bf = (case rb of None \<Rightarrow> emptyFilter | Some f \<Rightarrow> f)"
    and e: "buildExtFilter E block (of_nat i) = Inr re"
    and ef: "ef = (case re of None \<Rightarrow> emptyFilter | Some f \<Rightarrow> f)"
    by blast
  have "NBytes E bf = Inr (WriteVarInt E 0)" if "basic_elements E block (of_nat i) = []"
  proof -
    have "BuildGCSFilter E (of_nat i) ?key [] = Inr rb"
      using buildBasicFilter_elements [OF buildBasicFilter_InrD [OF b]] b that by simp
    with assms(2) have "rb = None \<or> rb = Some (BuildGCSFilter_spec E (of_nat i) ?key [])"
      by auto
    then show ?thesis using bf by (auto simp: NBytes_empty NBytes_spec_empty)
  qed
  moreover have "NBytes E ef = Inr (WriteVarInt E 0)" if "ext_elements E block (of_nat i) = []"
  proof -
    have "BuildGCSFilter E (of_nat i) ?key [] = Inr re"
      using buildExtFilter_elements [OF buildExtFilter_InrD [OF e]] e that by simp
    with assms(2) have "re = None \<or> re = Some (BuildGCSFilter_spec E (of_nat i) ?key [])"
      by auto
    then show ?thesis using ef by (auto simp: NBytes_empty NBytes_spec_empty)
  qed
  moreover have "\<forall>f. \<exists>bs. NBytes E f = Inr bs"
    by (simp add: NBytes_def)
  ultimately show ?thesis by (simp add: NBytes_empty)
qed

theorem empty_filter_bytes_witness:
  "filters_and_headers demo_env demo_block1 1 demo_state
     = Inr (\<lparr>f_n = 2, f_p = 1, filterData = [0xF0, 0, 1, 0xAA]\<rparr>, [0xF0, 0], emptyFilter, [0, 0])
   \<and> ext_elements demo_env demo_block1 1 = []
   \<and> NBytes demo_env emptyFilter = Inr [0]"
proof -
  have r: "filters_and_headers demo_env demo_block1 1 demo_state
     = Inr (\<lparr>f_n = 2, f_p = 1, filterData = [0xF0, 0, 1, 0xAA]\<rparr>, [0xF0, 0], emptyFilter, [0, 0])"
    by code_simp
  have n: "BuildGCSFilter demo_env (of_nat 1) (DeriveKey demo_env (BlockHash demo_env demo_block1)) []
      = Inr None"
    by (simp add: demo_env_def)
  have x: "ext_elements demo_env demo_block1 (of_nat 1) = []"
    by code_simp
  have v: "WriteVarInt demo_env 0 = [0]"
    by (simp add: demo_env_def)
  from empty_filter_bytes [OF r disjI1 [OF n]] x have "NBytes demo_env emptyFilter = Inr [0]"
    by (simp add: v)
  with r x show ?thesis by simp
qed

text \<open>
  Claim C10. When \<open>Build\<close> returns nil for one of the two filters, the new header of that
  chain is what \<open>MakeHeaderForFilter\<close> makes of nil and the previous header, while the bytes
  compared with the server's filter at the default P, and the filter bytes in the row at a
  test height, are the bytes of the empty filter that took the place of nil.
\<close>

theorem nil_filter_header_then_substitute:
  assumes "process_P E tbh k h blockHash block blockBytes i st = (None, st')"
    and "i < length (prevBasicHeaders st)" and "i < length (prevExtHeaders st)"
    and "i < length (files st)"
  shows "(buildBasicFilter E block (of_nat i) = Inr None \<longrightarrow>
            MakeHeaderForFilter E None (prevBasicHeaders st ! i) = Inr (prevBasicHeaders st' ! i)
          \<and> (i = DefaultP E \<longrightarrow> GetCFilter E blockHash GCSFilterRegular = NBytes E emptyFilter)
          \<and> ((word_of_int h :: 32 word) = height (tbh ! k) \<longrightarrow>
               (\<exists>w row nb. files st' ! i = Some w \<and> last (writer w) = Json row
                  \<and> NBytes E emptyFilter = Inr nb \<and> row ! 5 = JStr (EncodeToString nb))))
       \<and> (buildExtFilter E block (of_nat i) = Inr None \<longrightarrow>
            MakeHeaderForFilter E None (prevExtHeaders st ! i) = Inr (prevExtHeaders st' ! i)
          \<and> (i = DefaultP E \<longrightarrow> GetCFilter E blockHash GCSFilterExtended = NBytes E emptyFilter)
          \<and> ((word_of_int h :: 32 word) = height (tbh ! k) \<longrightarrow>
               (\<exists>w row ne. files st' ! i = Some w \<and> last (writer w) = Json row
                  \<and> NBytes E emptyFilter = Inr ne \<and> row ! 6 = JStr (EncodeToString ne))))"
proof -
  from process_P_NoneD [OF assms(1)] obtain bf bhd ef ehd st1 where
    fh: "filters_and_headers E block i st = Inr (bf, bhd, ef, ehd)"
    and vf: "i = DefaultP E \<longrightarrow> verify_against_server E blockHash bf bhd ef ehd = None"
    and em: "emit_row E tbh k h blockHash blockBytes i bf bhd ef ehd st = (None, st1)"
    and st': "st' = st1\<lparr>prevBasicHeaders := (prevBasicHeaders st1)[i := bhd],
                  prevExtHeaders := (prevExtHeaders st1)[i := ehd]\<rparr>"
    by blast
  from filters_and_headers_InrD [OF fh] obtain rb re where
    b: "buildBasicFilter E block (of_nat i) = Inr rb"
    and mb: "MakeHeaderForFilter E rb (prevBasicHeaders st ! i) = Inr bhd"
    and bf: "bf = (case rb of None \<Rightarrow> emptyFilter | Some f \<Rightarrow> f)"
    and e: "buildExtFilter E block (of_nat i) = Inr re"
    and me: "MakeHeaderForFilter E re (prevExtHeaders st ! i) = Inr ehd"
    and ef: "ef = (case re of None \<Rightarrow> emptyFilter | Some f \<Rightarrow> f)"
    by blast
  note hd = emit_row_headers [OF em]
  have nb: "prevBasicHeaders st' ! i = bhd" and ne: "prevExtHeaders st' ! i = ehd"
    using st' hd assms(2,3) by simp_all
  have fl: "files st' = files st1" using st' by simp
  have row: "\<exists>w nb ne. files st' ! i = Some w
      \<and> last (writer w) = Json (test_row tbh k h blockHash blockBytes
           (prevBasicHeaders st ! i) (prevExtHeaders st ! i) nb ne bhd ehd)
      \<and> NBytes E bf = Inr nb \<and> NBytes E ef = Inr ne"
    if m: "(word_of_int h :: 32 word) = height (tbh ! k)"
  proof -
    from emit_row_NoneD [OF em m] obtain w w' nb ne where
      n: "NBytes E bf = Inr nb" "NBytes E ef = Inr ne"
      and wt: "WriteTestCase E w (test_row tbh k h blockHash blockBytes
           (prevBasicHeaders st ! i) (prevExtHeaders st ! i) nb ne bhd ehd) = (None, w')"
      and s1: "st1 = st\<lparr>files := (files st)[i := Some w']\<rparr>"
      by blast
    have "files st' ! i = Some w'" using fl s1 assms(4) by simp
    moreover have "last (writer w') = Json (test_row tbh k h blockHash blockBytes
           (prevBasicHeaders st ! i) (prevExtHeaders st ! i) nb ne bhd ehd)"
      using WriteTestCase_NoneD [OF wt] by simp
    ultimately show ?thesis using n by blast
  qed
  have c5: "test_row tbh k h blockHash blockBytes pb pe x y bhd ehd ! 5 = JStr (EncodeToString x)"
    and c6: "test_row tbh k h blockHash blockBytes pb pe x y bhd ehd ! 6 = JStr (EncodeToString y)"
    for pb pe x y
    by (simp_all add: test_row_def)
  have basic: "MakeHeaderForFilter E None (prevBasicHeaders st ! i) = Inr (prevBasicHeaders st' ! i)
          \<and> (i = DefaultP E \<longrightarrow> GetCFilter E blockHash GCSFilterRegular = NBytes E emptyFilter)
          \<and> ((word_of_int h :: 32 word) = height (tbh ! k) \<longrightarrow>
               (\<exists>w row nb. files st' ! i = Some w \<and> last (writer w) = Json row
                  \<and> NBytes E emptyFilter = Inr nb \<and> row ! 5 = JStr (EncodeToString nb)))"
    if "buildBasicFilter E block (of_nat i) = Inr None"
  proof -
    from that b have rb: "rb = None" by simp
    then have bfe: "bf = emptyFilter" using bf by simp
    have "i = DefaultP E \<longrightarrow> GetCFilter E blockHash GCSFilterRegular = NBytes E emptyFilter"
      using vf verify_NoneD [of E blockHash bf bhd ef ehd] bfe by simp
    moreover have "\<exists>w row nb. files st' ! i = Some w \<and> last (writer w) = Json row
                  \<and> NBytes E emptyFilter = Inr nb \<and> row ! 5 = JStr (EncodeToString nb)"
      if m: "(word_of_int h :: 32 word) = height (tbh ! k)"
      using row [OF m] bfe c5 by fastforce
    ultimately show ?thesis using mb rb nb by simp
  qed
  have ext: "MakeHeaderForFilter E None (prevExtHeaders st ! i) = Inr (prevExtHeaders st' ! i)
          \<and> (i = DefaultP E \<longrightarrow> GetCFilter E blockHash GCSFilterExtended = NBytes E emptyFilter)
          \<and> ((word_of_int h :: 32 word) = height (tbh ! k) \<longrightarrow>
               (\<exists>w row ne. files st' ! i = Some w \<and> last (writer w) = Json row
                  \<and> NBytes E emptyFilter = Inr ne \<and> row ! 6 = JStr (EncodeToString ne)))"
    if "buildExtFilter E block (of_nat i) = Inr None"
  proof -
    from that e have re: "re = None" by simp
    then have efe: "ef = emptyFilter" using ef by simp
    have "i = DefaultP E \<longrightarrow> GetCFilter E blockHash GCSFilterExtended = NBytes E emptyFilter"
      using vf verify_NoneD [of E blockHash bf bhd ef ehd] efe by simp
    moreover have "\<exists>w row ne. files st' ! i = Some w \<and> last (writer w) = Json row
                  \<and> NBytes E emptyFilter = Inr ne \<and> row ! 6 = JStr (EncodeToString ne)"
      if m: "(word_of_int h :: 32 word) = height (tbh ! k)"
      using row [OF m] efe c6 by fastforce
    ultimately show ?thesis using me re ne by simp
  qed
  from basic ext show ?thesis by blast
qed

theorem nil_filter_header_then_substitute_witness:
  "process_P demo_env demo_heights 0 0 [0] demo_block1 [8] 1 demo_state
     = (None, demo_state\<lparr>files := (files demo_state)[1 := Some
          \<lparr>writer = writer demo_writer @ [Text ('','' @ newline),
             Json (test_row demo_heights 0 0 [0] [8] zeroHash zeroHash
               [2, 0xF0, 0, 1, 0xAA] [0] [0xF0, 0] [0, 0])],
           firstRowWritten = True\<rparr>],
        prevBasicHeaders := (prevBasicHeaders demo_state)[1 := [0xF0, 0]],
        prevExtHeaders := (prevExtHeaders demo_state)[1 := [0, 0]]\<rparr>)
   \<and> buildExtFilter demo_env demo_block1 (of_nat 1) = Inr None
   \<and> MakeHeaderForFilter demo_env None (prevExtHeaders demo_state ! 1)
       = Inr (prevExtHeaders (snd (process_P demo_env demo_heights 0 0 [0] demo_block1 [8] 1
           demo_state)) ! 1)"
proof -
  have run: "process_P demo_env demo_heights 0 0 [0] demo_block1 [8] 1 demo_state
     = (None, demo_state\<lparr>files := (files demo_state)[1 := Some
          \<lparr>writer = writer demo_writer @ [Text ('','' @ newline),
             Json (test_row demo_heights 0 0 [0] [8] zeroHash zeroHash
               [2, 0xF0, 0, 1, 0xAA] [0] [0xF0, 0] [0, 0])],
           firstRowWritten = True\<rparr>],
        prevBasicHeaders := (prevBasicHeaders demo_state)[1 := [0xF0, 0]],
        prevExtHeaders := (prevExtHeaders demo_state)[1 := [0, 0]]\<rparr>)"
    by code_simp
  have l: "1 < length (prevBasicHeaders demo_state)" "1 < length (prevExtHeaders demo_state)"
    "1 < length (files demo_state)"
    by (simp_all add: demo_state_def init_state_def)
  have x: "buildExtFilter demo_env demo_block1 (of_nat 1) = Inr None"
    by code_simp
  from nil_filter_header_then_substitute [OF run l] x run show ?thesis by simp
qed

subsection \<open>The loop over P and the header chains\<close>

lemma slot_eq_refl: "slot_eq i s s"
  by (simp add: slot_eq_def)

lemma slot_eq_trans: "slot_eq i s t \<Longrightarrow> slot_eq i t u \<Longrightarrow> slot_eq i s u"
  by (simp add: slot_eq_def)

lemma slot_eq_sym: "slot_eq i s t \<Longrightarrow> slot_eq i t s"
  by (simp add: slot_eq_def)

lemma emit_row_frame:
  "emit_row E tbh k h blockHash blockBytes j bf bhd ef ehd st = (a, st1) \<Longrightarrow> i \<noteq> j \<Longrightarrow>
   files st1 ! i = files st ! i"
  by (auto simp: emit_row_def Let_def split: if_splits sum.splits option.splits prod.splits)

lemma process_P_frame:
  assumes "process_P E tbh k h blockHash block blockBytes j st = (a, st')" and "i \<noteq> j"
  shows "slot_eq i st' st"
proof -
  have "files st' ! i = files st ! i
      \<and> prevBasicHeaders st' ! i = prevBasicHeaders st ! i
      \<and> prevExtHeaders st' ! i = prevExtHeaders st ! i"
    using assms
    by (auto simp: process_P_def split: sum.splits option.splits prod.splits if_splits
        dest: emit_row_headers emit_row_frame)
  with process_P_length [OF assms(1)] show ?thesis by (simp add: slot_eq_def)
qed

lemma P_loop_frame:
  "P_loop E tbh k h blockHash block blockBytes js st = (a, st') \<Longrightarrow> i \<notin> set js \<Longrightarrow>
   slot_eq i st' st"
proof (induction js arbitrary: st)
  case Nil
  then show ?case by (simp add: slot_eq_refl)
next
  case (Cons j js)
  obtain b s1 where p: "process_P E tbh k h blockHash block blockBytes j st = (b, s1)"
    by (cases "process_P E tbh k h blockHash block blockBytes j st")
  from Cons.prems(2) have ij: "i \<noteq> j" and ijs: "i \<notin> set js" by auto
  note f = process_P_frame [OF p ij]
  show ?case
  proof (cases b)
    case None
    with Cons.prems(1) p have "P_loop E tbh k h blockHash block blockBytes js s1 = (a, st')"
      by simp
    from Cons.IH [OF this ijs] f show ?thesis by (rule slot_eq_trans)
  next
    case (Some x)
    with Cons.prems(1) p have "st' = s1" by simp
    with f show ?thesis by simp
  qed
qed

text \<open>In a completed pass over distinct values of P, the step for i ran once, on a state
  whose slot i was that of the start, and left slot i as it is at the end.\<close>

lemma P_loop_slot:
  "P_loop E tbh k h blockHash block blockBytes js st = (None, st') \<Longrightarrow> distinct js \<Longrightarrow>
   i \<in> set js \<Longrightarrow>
   \<exists>s1 s2. process_P E tbh k h blockHash block blockBytes i s1 = (None, s2)
     \<and> slot_eq i s1 st \<and> slot_eq i s2 st'"
proof (induction js arbitrary: st)
  case Nil
  then show ?case by simp
next
  case (Cons j js)
  obtain b s1 where p: "process_P E tbh k h blockHash block blockBytes j st = (b, s1)"
    by (cases "process_P E tbh k h blockHash block blockBytes j st")
  from Cons.prems(1) p have b: "b = None"
    by (cases b) simp_all
  with Cons.prems(1) p have rest: "P_loop E tbh k h blockHash block blockBytes js s1 = (None, st')"
    by simp
  show ?case
  proof (cases "i = j")
    case True
    with Cons.prems(2) have "i \<notin> set js" by simp
    from P_loop_frame [OF rest this] have "slot_eq i s1 st'" by (rule slot_eq_sym)
    with p b True slot_eq_refl show ?thesis by blast
  next
    case False
    with Cons.prems have "i \<in> set js" "distinct js" by simp_all
    from Cons.IH [OF rest this(2,1)] obtain t1 t2 where
      t: "process_P E tbh k h blockHash block blockBytes i t1 = (None, t2)"
      "slot_eq i t1 s1" "slot_eq i t2 st'"
      by blast
    from t(2) process_P_frame [OF p False] have "slot_eq i t1 st" by (rule slot_eq_trans)
    with t show ?thesis by blast
  qed
qed

text \<open>
  Claim C3. Both slices of previous headers start as 33 copies of the hash of 32 zero
  bytes, and opening the output files leaves them so: this is what the step for height 0
  reads. In a completed pass over P = 1..32 for one block, the new header of each chain
  and each P is the double hash of the hash of that block's filter followed by the header
  the chain had before the pass.
\<close>

theorem header_chain:
  "prevBasicHeaders init_state = replicate 33 (replicate 32 0)
   \<and> prevExtHeaders init_state = replicate 33 (replicate 32 0)
   \<and> (\<forall>is r st0. open_files E is init_state = (r, st0) \<longrightarrow>
         prevBasicHeaders st0 = prevBasicHeaders init_state
         \<and> prevExtHeaders st0 = prevExtHeaders init_state)
   \<and> (\<forall>tbh k h blockHash block blockBytes st st' i.
         P_loop E tbh k h blockHash block blockBytes [1..<33] st = (None, st')
         \<and> length (prevBasicHeaders st) = 33 \<and> length (prevExtHeaders st) = 33
         \<and> 1 \<le> i \<and> i \<le> 32 \<longrightarrow>
         (\<exists>basicFilter extFilter basicHash extHash.
            buildBasicFilter E block (of_nat i) = Inr basicFilter
            \<and> GetFilterHash E basicFilter = Inr basicHash
            \<and> prevBasicHeaders st' ! i = DoubleHashH E (basicHash @ prevBasicHeaders st ! i)
            \<and> buildExtFilter E block (of_nat i) = Inr extFilter
            \<and> GetFilterHash E extFilter = Inr extHash
            \<and> prevExtHeaders st' ! i = DoubleHashH E (extHash @ prevExtHeaders st ! i)))"
proof -
  have init: "prevBasicHeaders init_state = replicate 33 (replicate 32 0)"
    "prevExtHeaders init_state = replicate 33 (replicate 32 0)"
    by (simp_all add: init_state_def zeroHash_def)
  have opened: "prevBasicHeaders st0 = prevBasicHeaders st \<and> prevExtHeaders st0 = prevExtHeaders st"
    if "open_files E is st = (r, st0)" for "is" r st0 st
    using that
    by (induction "is" arbitrary: st) (auto split: option.splits prod.splits)
  have step: "\<exists>basicFilter extFilter basicHash extHash.
            buildBasicFilter E block (of_nat i) = Inr basicFilter
            \<and> GetFilterHash E basicFilter = Inr basicHash
            \<and> prevBasicHeaders st' ! i = DoubleHashH E (basicHash @ prevBasicHeaders st ! i)
            \<and> buildExtFilter E block (of_nat i) = Inr extFilter
            \<and> GetFilterHash E extFilter = Inr extHash
            \<and> prevExtHeaders st' ! i = DoubleHashH E (extHash @ prevExtHeaders st ! i)"
    if pl: "P_loop E tbh k h blockHash block blockBytes [1..<33] st = (None, st')"
      and len: "length (prevBasicHeaders st) = 33" "length (prevExtHeaders st) = 33"
      and i: "1 \<le> i" "i \<le> 32"
    for tbh k h blockHash block blockBytes st st' i
  proof -
    have "distinct [1..<33]" "i \<in> set [1..<33]" using i by simp_all
    from P_loop_slot [OF pl this] obtain s1 s2 where
      p: "process_P E tbh k h blockHash block blockBytes i s1 = (None, s2)"
      and s1: "slot_eq i s1 st" and s2: "slot_eq i s2 st'"
      by blast
    from process_P_NoneD [OF p] obtain bf bhd ef ehd t where
      fh: "filters_and_headers E block i s1 = Inr (bf, bhd, ef, ehd)"
      and em: "emit_row E tbh k h blockHash blockBytes i bf bhd ef ehd s1 = (None, t)"
      and s2': "s2 = t\<lparr>prevBasicHeaders := (prevBasicHeaders t)[i := bhd],
                  prevExtHeaders := (prevExtHeaders t)[i := ehd]\<rparr>"
      by blast
    have li: "i < length (prevBasicHeaders s1)" "i < length (prevExtHeaders s1)"
      using s1 len i by (simp_all add: slot_eq_def)
    have nb: "prevBasicHeaders s2 ! i = bhd" and ne: "prevExtHeaders s2 ! i = ehd"
      using s2' emit_row_headers [OF em] li by simp_all
    from filters_and_headers_InrD [OF fh] obtain rb re where
      b: "buildBasicFilter E block (of_nat i) = Inr rb"
      and mb: "MakeHeaderForFilter E rb (prevBasicHeaders s1 ! i) = Inr bhd"
      and e: "buildExtFilter E block (of_nat i) = Inr re"
      and me: "MakeHeaderForFilter E re (prevExtHeaders s1 ! i) = Inr ehd"
      by blast
    from mb obtain hb where hb: "GetFilterHash E rb = Inr hb"
      "bhd = DoubleHashH E (hb @ prevBasicHeaders s1 ! i)"
      by (auto simp: MakeHeaderForFilter_def split: sum.splits)
    from me obtain he where he: "GetFilterHash E re = Inr he"
      "ehd = DoubleHashH E (he @ prevExtHeaders s1 ! i)"
      by (auto simp: MakeHeaderForFilter_def split: sum.splits)
    have "prevBasicHeaders st' ! i = DoubleHashH E (hb @ prevBasicHeaders st ! i)"
      "prevExtHeaders st' ! i = DoubleHashH E (he @ prevExtHeaders st ! i)"
      using nb ne hb(2) he(2) s1 s2 by (simp_all add: slot_eq_def)
    with b e hb(1) he(1) show ?thesis by blast
  qed
  from init opened step show ?thesis by blast
qed

lemma emit_row_keeps_writer:
  "emit_row E tbh k h blockHash blockBytes j bf bhd ef ehd st = (b, t) \<Longrightarrow>
   files st ! i \<noteq> None \<Longrightarrow> files t ! i \<noteq> None"
  by (cases "i = j"; cases "j < length (files st)")
     (auto simp: emit_row_def Let_def list_update_beyond
        split: if_splits sum.splits option.splits prod.splits)

lemma process_P_keeps_writer:
  "process_P E tbh k h blockHash block blockBytes j st = (a, st') \<Longrightarrow> files st ! i \<noteq> None \<Longrightarrow>
   files st' ! i \<noteq> None"
  by (auto simp: process_P_def split: sum.splits option.splits prod.splits if_splits
      dest: emit_row_keeps_writer)

lemma buildBasicFilter_completes:
  "never_fails E \<Longrightarrow> 1 \<le> i \<Longrightarrow> i \<le> 32 \<Longrightarrow> \<exists>f. buildBasicFilter E block (of_nat i) = Inr f"
  by (simp add: buildBasicFilter_elements never_fails_def)

lemma buildExtFilter_completes:
  "never_fails E \<Longrightarrow> 1 \<le> i \<Longrightarrow> i \<le> 32 \<Longrightarrow> \<exists>f. buildExtFilter E block (of_nat i) = Inr f"
  by (simp add: buildExtFilter_elements never_fails_def)

lemma MakeHeaderForFilter_completes:
  "never_fails E \<Longrightarrow> \<exists>x. MakeHeaderForFilter E f prev = Inr x"
proof -
  assume "never_fails E"
  then obtain x where "GetFilterHash E f = Inr x" unfolding never_fails_def by blast
  then show ?thesis by (simp add: MakeHeaderForFilter_def)
qed

lemma filters_and_headers_completes:
  assumes "never_fails E" and "1 \<le> i" and "i \<le> 32"
  shows "\<exists>v. filters_and_headers E block i st = Inr v"
proof -
  obtain rb where b: "buildBasicFilter E block (of_nat i) = Inr rb"
    using buildBasicFilter_completes [OF assms] by blast
  obtain bhd where mb: "MakeHeaderForFilter E rb (prevBasicHeaders st ! i) = Inr bhd"
    using MakeHeaderForFilter_completes [OF assms(1)] by blast
  obtain re where e: "buildExtFilter E block (of_nat i) = Inr re"
    using buildExtFilter_completes [OF assms] by blast
  obtain ehd where me: "MakeHeaderForFilter E re (prevExtHeaders st ! i) = Inr ehd"
    using MakeHeaderForFilter_completes [OF assms(1)] by blast
  show ?thesis by (simp add: filters_and_headers_def b mb e me Let_def)
qed

lemma WriteTestCase_completes:
  "never_fails E \<Longrightarrow> \<exists>w'. WriteTestCase E w row = (None, w')"
  by (simp add: WriteTestCase_def never_fails_def Let_def)

lemma emit_row_completes:
  assumes "never_fails E" and "files st ! i \<noteq> None"
  shows "\<exists>t. emit_row E tbh k h blockHash blockBytes i bf bhd ef ehd st = (None, t)"
proof -
  from assms(2) obtain w where w: "files st ! i = Some w" by auto
  obtain w' where "WriteTestCase E w (test_row tbh k h blockHash blockBytes
      (prevBasicHeaders st ! i) (prevExtHeaders st ! i)
      (WriteVarInt E (unat (f_n bf)) @ filterData bf) (WriteVarInt E (unat (f_n ef)) @ filterData ef)
      bhd ehd) = (None, w')"
    using WriteTestCase_completes [OF assms(1)] by blast
  then show ?thesis
    by (simp add: emit_row_def NBytes_def w Let_def)
qed

lemma process_P_completes:
  assumes "never_fails E" and "files st ! i \<noteq> None" and "1 \<le> i" and "i \<le> 32"
  shows "\<exists>st'. process_P E tbh k h blockHash block blockBytes i st = (None, st')"
proof -
  from filters_and_headers_completes [OF assms(1,3,4)] obtain bf bhd ef ehd where
    fh: "filters_and_headers E block i st = Inr (bf, bhd, ef, ehd)"
    by (metis prod_cases4)
  from emit_row_completes [OF assms(1,2)] obtain t where
    em: "emit_row E tbh k h blockHash blockBytes i bf bhd ef ehd st = (None, t)"
    by blast
  have d: "i \<noteq> DefaultP E"
    using assms unfolding never_fails_def by blast
  show ?thesis by (simp add: process_P_def fh em d)
qed

lemma P_loop_completes:
  "never_fails E \<Longrightarrow> \<forall>i \<in> set js. 1 \<le> i \<and> i \<le> 32 \<and> files st ! i \<noteq> None \<Longrightarrow>
   \<exists>st'. P_loop E tbh k h blockHash block blockBytes js st = (None, st')"
proof (induction js arbitrary: st)
  case Nil
  then show ?case by simp
next
  case (Cons j js)
  from Cons.prems have j: "1 \<le> j" "j \<le> 32" "files st ! j \<noteq> None" by simp_all
  from process_P_completes [OF Cons.prems(1) j(3) j(1,2)] obtain s1 where
    p: "process_P E tbh k h blockHash block blockBytes j st = (None, s1)"
    by blast
  have "\<forall>i \<in> set js. 1 \<le> i \<and> i \<le> 32 \<and> files s1 ! i \<noteq> None"
    using Cons.prems(2) process_P_keeps_writer [OF p] by simp
  from Cons.IH [OF Cons.prems(1) this] p show ?case by simp
qed

lemma P_loop_keeps_writer:
  "P_loop E tbh k h blockHash block blockBytes js st = (a, st') \<Longrightarrow> files st ! i \<noteq> None \<Longrightarrow>
   files st' ! i \<noteq> None"
proof (induction js arbitrary: st)
  case Nil
  then show ?case by simp
next
  case (Cons j js)
  obtain b s1 where p: "process_P E tbh k h blockHash block blockBytes j st = (b, s1)"
    by (cases "process_P E tbh k h blockHash block blockBytes j st")
  note w = process_P_keeps_writer [OF p Cons.prems(2)]
  show ?case
  proof (cases b)
    case None
    with Cons.prems(1) p have "P_loop E tbh k h blockHash block blockBytes js s1 = (a, st')"
      by simp
    from Cons.IH [OF this w] show ?thesis .
  next
    case (Some x)
    with Cons.prems(1) p w show ?thesis by simp
  qed
qed

lemma main_loop_completes:
  "never_fails E \<Longrightarrow> \<forall>i \<in> {1..32}. files st ! i \<noteq> None \<Longrightarrow>
   fst (main_loop E tbh k h st) = None"
proof (induction E tbh k h st rule: main_loop.induct)
  case (1 E tbh k h st)
  note unf = main_loop.simps [of E tbh k h st]
  show ?case
  proof (cases "k < length tbh")
    case False
    then show ?thesis by (simp add: unf)
  next
    case k: True
    from "1.prems"(1) obtain blockHash where bh: "GetBlockHash E h = Inr blockHash"
      unfolding never_fails_def by blast
    from "1.prems"(1) obtain block where blk: "GetBlock E blockHash = Inr block"
      unfolding never_fails_def by blast
    from "1.prems"(1) obtain blockBytes where bb: "Serialize E block = Inr blockBytes"
      unfolding never_fails_def by blast
    have "\<forall>i \<in> set [1..<33]. 1 \<le> i \<and> i \<le> 32 \<and> files st ! i \<noteq> None"
      using "1.prems"(2) by simp
    from P_loop_completes [OF "1.prems"(1) this] obtain st' where
      pl: "P_loop E tbh k h blockHash block blockBytes [1..<33] st = (None, st')"
      by blast
    have w: "\<forall>i \<in> {1..32}. files st' ! i \<noteq> None"
      using P_loop_keeps_writer [OF pl] "1.prems"(2) by blast
    show ?thesis
    proof (cases "(word_of_int h :: 32 word) = height (tbh ! k)")
      case True
      from "1.IH"(1) [OF k bh blk bb pl [symmetric] refl True "1.prems"(1) w]
      show ?thesis using k bh blk bb pl True by (simp add: unf)
    next
      case False
      from "1.IH"(2) [OF k bh blk bb pl [symmetric] refl False "1.prems"(1) w]
      show ?thesis using k bh blk bb pl False by (simp add: unf)
    qed
  qed
qed

lemma of_nat_le_32: "i \<le> 32 \<Longrightarrow> \<not> 32 < (of_nat i :: 8 word)"
  by (simp add: not_less word_le_nat_alt unat_of_nat)

lemma never_fails_demo: "never_fails demo_env"
  using of_nat_le_32 by (auto simp: never_fails_def demo_env_def split: option.splits)

lemma demo_state_writers: "\<forall>i \<in> set [1..<33]. 1 \<le> i \<and> i \<le> 32 \<and> files demo_state ! i \<noteq> None"
  by (auto simp: demo_state_def nth_Cons')

theorem header_chain_witness:
  "fst (P_loop demo_env demo_heights 0 0 [0] demo_block [7] [1..<33] demo_state) = None
   \<and> (\<exists>basicFilter basicHash.
         buildBasicFilter demo_env demo_block (of_nat 5) = Inr basicFilter
         \<and> GetFilterHash demo_env basicFilter = Inr basicHash
         \<and> prevBasicHeaders (snd (P_loop demo_env demo_heights 0 0 [0] demo_block [7] [1..<33]
               demo_state)) ! 5
             = DoubleHashH demo_env (basicHash @ prevBasicHeaders demo_state ! 5))"
proof -
  from P_loop_completes [OF never_fails_demo demo_state_writers] obtain st' where
    pl: "P_loop demo_env demo_heights 0 0 [0] demo_block [7] [1..<33] demo_state = (None, st')"
    by blast
  have len: "length (prevBasicHeaders demo_state) = 33" "length (prevExtHeaders demo_state) = 33"
    by (simp_all add: demo_state_def init_state_def)
  note step = conjunct2 [OF conjunct2 [OF conjunct2 [OF header_chain [of demo_env]]], rule_format]
  have "P_loop demo_env demo_heights 0 0 [0] demo_block [7] [1..<33] demo_state = (None, st')
      \<and> length (prevBasicHeaders demo_state) = 33 \<and> length (prevExtHeaders demo_state) = 33
      \<and> 1 \<le> (5::nat) \<and> (5::nat) \<le> 32"
    using pl len by simp
  from step [OF this] pl show ?thesis by auto
qed

lemma P_loop_append:
  "P_loop E tbh k h blockHash block blockBytes (xs @ ys) st
     = (case P_loop E tbh k h blockHash block blockBytes xs st of
          (Some a, s) \<Rightarrow> (Some a, s)
        | (None, s) \<Rightarrow> P_loop E tbh k h blockHash block blockBytes ys s)"
  by (induction xs arbitrary: st) (auto split: prod.splits option.splits)

lemma upt_split_at: "1 \<le> d \<Longrightarrow> d \<le> 32 \<Longrightarrow> [1..<33] = [1..<d] @ d # [Suc d..<33]"
proof -
  assume d: "1 \<le> d" "d \<le> 32"
  have "[1..<33] = [1..<d] @ [d..<33]"
    using d upt_add_eq_append [of 1 d "33 - d"] by simp
  also have "[d..<33] = d # [Suc d..<33]"
    using d by (simp add: upt_conv_Cons)
  finally show ?thesis .
qed

text \<open>
  Claim C4. Take a height at which the block was fetched, the passes for the values of P
  below the default went through, and both filters and headers were made for the default
  P. If the server does not return exactly the local filter bytes and headers, for any of
  the four, the loop over the heights returns at once with an abort: the height and the
  index are those of this round, and the state is the one reached before the default P, so
  nothing was written or chained for it or for any later P or height.
\<close>

theorem crosscheck_mismatch_aborts:
  assumes "k < length tbh"
    and "GetBlockHash E h = Inr blockHash"
    and "GetBlock E blockHash = Inr block"
    and "Serialize E block = Inr blockBytes"
    and "1 \<le> DefaultP E" and "DefaultP E \<le> 32"
    and "P_loop E tbh k h blockHash block blockBytes [1..<DefaultP E] st = (None, s1)"
    and "filters_and_headers E block (DefaultP E) s1 = Inr (bf, bhd, ef, ehd)"
    and "\<not> (GetCFilter E blockHash GCSFilterRegular = NBytes E bf
            \<and> GetCFilter E blockHash GCSFilterExtended = NBytes E ef
            \<and> GetCFilterHeader E blockHash GCSFilterRegular = Inr bhd
            \<and> GetCFilterHeader E blockHash GCSFilterExtended = Inr ehd)"
  shows "\<exists>a. verify_against_server E blockHash bf bhd ef ehd = Some a
           \<and> main_loop E tbh k h st = (Some a, h, k, s1)"
proof -
  from assms(9) verify_NoneD [of E blockHash bf bhd ef ehd] obtain a where
    v: "verify_against_server E blockHash bf bhd ef ehd = Some a"
    by (cases "verify_against_server E blockHash bf bhd ef ehd") auto
  have p: "process_P E tbh k h blockHash block blockBytes (DefaultP E) s1 = (Some a, s1)"
    by (simp add: process_P_def assms(8) v)
  have "P_loop E tbh k h blockHash block blockBytes [1..<33] st = (Some a, s1)"
    unfolding upt_split_at [OF assms(5,6)] P_loop_append assms(7)
    by (simp add: p)
  then have "main_loop E tbh k h st = (Some a, h, k, s1)"
    using assms(1-4) by (simp add: main_loop.simps [of E tbh k h st])
  with v show ?thesis by blast
qed

theorem crosscheck_mismatch_aborts_witness:
  "P_loop demo_env_check demo_heights 0 0 [0] demo_block [7] [1..<DefaultP demo_env_check] demo_state
     = (None, snd (process_P demo_env_check demo_heights 0 0 [0] demo_block [7] 1 demo_state))
   \<and> GetCFilter demo_env_check [0] GCSFilterRegular = Inr [0]
   \<and> main_loop demo_env_check demo_heights 0 0 demo_state
       = (Some (BasicFilterDoesntMatch [0] [6, 0xF0, 0, 1, 0xAA, 0xF0, 1, 5, 0, 6, 0, 0x6A]), 0, 0,
          snd (process_P demo_env_check demo_heights 0 0 [0] demo_block [7] 1 demo_state))"
proof -
  let ?s1 = "snd (process_P demo_env_check demo_heights 0 0 [0] demo_block [7] 1 demo_state)"
  have d: "DefaultP demo_env_check = 2"
    by (simp add: demo_env_check_def)
  have p1: "fst (process_P demo_env_check demo_heights 0 0 [0] demo_block [7] 1 demo_state) = None"
    by code_simp
  have pl: "P_loop demo_env_check demo_heights 0 0 [0] demo_block [7] [1..<DefaultP demo_env_check]
      demo_state = (None, ?s1)"
    using p1 unfolding d
    by (cases "process_P demo_env_check demo_heights 0 0 [0] demo_block [7] 1 demo_state")
       (simp add: upt_conv_Cons)
  have fh: "filters_and_headers demo_env_check demo_block (DefaultP demo_env_check) ?s1
      = Inr (\<lparr>f_n = 6, f_p = 2, filterData = [0xF0, 0, 1, 0xAA, 0xF0, 1, 5, 0, 6, 0, 0x6A]\<rparr>,
             [0xF0, 0], \<lparr>f_n = 2, f_p = 2, filterData = [0xBB, 0xCC]\<rparr>, [0xBB, 0])"
    unfolding d by code_simp
  have k: "0 < length demo_heights" by (simp add: demo_heights_def)
  have g: "GetBlockHash demo_env_check 0 = Inr [0]" "GetBlock demo_env_check [0] = Inr demo_block"
    "Serialize demo_env_check demo_block = Inr [7]"
    by (simp_all add: demo_env_check_def demo_env_def demo_block_def)
  have r: "GetCFilter demo_env_check [0] GCSFilterRegular = Inr [0]"
    by (simp add: demo_env_check_def demo_env_def)
  have nb: "NBytes demo_env_check
      \<lparr>f_n = 6, f_p = 2, filterData = [0xF0, 0, 1, 0xAA, 0xF0, 1, 5, 0, 6, 0, 0x6A]\<rparr>
      = Inr [6, 0xF0, 0, 1, 0xAA, 0xF0, 1, 5, 0, 6, 0, 0x6A]"
    by (simp add: NBytes_def demo_env_check_def demo_env_def)
  have m: "\<not> (GetCFilter demo_env_check [0] GCSFilterRegular
        = NBytes demo_env_check
            \<lparr>f_n = 6, f_p = 2, filterData = [0xF0, 0, 1, 0xAA, 0xF0, 1, 5, 0, 6, 0, 0x6A]\<rparr>
      \<and> GetCFilter demo_env_check [0] GCSFilterExtended
        = NBytes demo_env_check \<lparr>f_n = 2, f_p = 2, filterData = [0xBB, 0xCC]\<rparr>
      \<and> GetCFilterHeader demo_env_check [0] GCSFilterRegular = Inr [0xF0, 0]
      \<and> GetCFilterHeader demo_env_check [0] GCSFilterExtended = Inr [0xBB, 0])"
    by (simp add: r nb)
  have v: "verify_against_server demo_env_check [0]
      \<lparr>f_n = 6, f_p = 2, filterData = [0xF0, 0, 1, 0xAA, 0xF0, 1, 5, 0, 6, 0, 0x6A]\<rparr>
      [0xF0, 0] \<lparr>f_n = 2, f_p = 2, filterData = [0xBB, 0xCC]\<rparr> [0xBB, 0]
      = Some (BasicFilterDoesntMatch [0] [6, 0xF0, 0, 1, 0xAA, 0xF0, 1, 5, 0, 6, 0, 0x6A])"
    by (simp add: verify_against_server_def r nb)
  have d1: "1 \<le> DefaultP demo_env_check" "DefaultP demo_env_check \<le> 32"
    by (simp_all add: d)
  from crosscheck_mismatch_aborts [OF k g d1 pl fh m] v pl r show ?thesis
    by auto
qed

subsection \<open>The loop over the heights\<close>

lemma process_P_heights:
  assumes "process_P E tbh k h blockHash block blockBytes i st = (None, st')"
    and "i < length (files st)"
  shows "test_heights (files st' ! i)
    = test_heights (files st ! i) @ (if (word_of_int h :: 32 word) = height (tbh ! k) then [h] else [])"
proof -
  from process_P_NoneD [OF assms(1)] obtain bf bhd ef ehd st1 where
    em: "emit_row E tbh k h blockHash blockBytes i bf bhd ef ehd st = (None, st1)"
    and st': "st' = st1\<lparr>prevBasicHeaders := (prevBasicHeaders st1)[i := bhd],
                  prevExtHeaders := (prevExtHeaders st1)[i := ehd]\<rparr>"
    by blast
  have fl: "files st' = files st1" using st' by simp
  show ?thesis
  proof (cases "(word_of_int h :: 32 word) = height (tbh ! k)")
    case False
    from emit_row_skip [OF False, of E blockHash blockBytes i bf bhd ef ehd st] em fl False
    show ?thesis by simp
  next
    case True
    from emit_row_NoneD [OF em True] obtain w w' nb ne where
      w: "files st ! i = Some w"
      and wt: "WriteTestCase E w (test_row tbh k h blockHash blockBytes
           (prevBasicHeaders st ! i) (prevExtHeaders st ! i) nb ne bhd ehd) = (None, w')"
      and s1: "st1 = st\<lparr>files := (files st)[i := Some w']\<rparr>"
      by blast
    have "files st' ! i = Some w'" using fl s1 assms(2) by simp
    moreover have "test_heights (Some w') = test_heights (Some w) @ [h]"
      using WriteTestCase_NoneD [OF wt] by (simp add: test_heights_def test_row_def)
    ultimately show ?thesis using w True by simp
  qed
qed

lemma P_loop_heights:
  assumes "P_loop E tbh k h blockHash block blockBytes [1..<33] st = (None, st')"
    and "length (files st) = 33" and "1 \<le> i" and "i \<le> 32"
  shows "test_heights (files st' ! i)
    = test_heights (files st ! i) @ (if (word_of_int h :: 32 word) = height (tbh ! k) then [h] else [])"
proof -
  have "distinct [1..<33]" "i \<in> set [1..<33]" using assms(3,4) by simp_all
  from P_loop_slot [OF assms(1) this] obtain s1 s2 where
    p: "process_P E tbh k h blockHash block blockBytes i s1 = (None, s2)"
    and s1: "slot_eq i s1 st" and s2: "slot_eq i s2 st'"
    by blast
  have "i < length (files s1)" using s1 assms(2,4) by (simp add: slot_eq_def)
  from process_P_heights [OF p this] s1 s2 show ?thesis by (simp add: slot_eq_def)
qed

lemma word_of_int_eq_uint:
  "0 \<le> h \<Longrightarrow> h \<le> uint (t :: 32 word) \<Longrightarrow> word_of_int h = t \<longleftrightarrow> h = uint t"
proof
  assume h: "0 \<le> h" "h \<le> uint t" and e: "word_of_int h = t"
  have "uint t < 2 ^ 32" using uint_bounded [of t] by simp
  with h have "take_bit 32 h = h" by (simp add: take_bit_int_eq_self)
  moreover have "uint (word_of_int h :: 32 word) = take_bit 32 h"
    by (simp add: uint_word_of_int_eq)
  ultimately show "h = uint t" using e by simp
next
  assume "h = uint t"
  then show "word_of_int h = t" by simp
qed

lemma sorted_heights_step:
  "sorted_wrt (<) (map height tbh) \<Longrightarrow> Suc k < length tbh \<Longrightarrow>
   uint (height (tbh ! k)) + 1 \<le> uint (height (tbh ! Suc k))"
proof -
  assume "sorted_wrt (<) (map height tbh)" and k: "Suc k < length tbh"
  then have "height (tbh ! k) < height (tbh ! Suc k)"
    by (simp add: sorted_wrt_iff_nth_less)
  then show ?thesis by (simp add: word_less_def)
qed

lemma main_loop_heights:
  "main_loop E tbh k h st = (None, h', k', st') \<Longrightarrow>
   sorted_wrt (<) (map height tbh) \<Longrightarrow> length (files st) = 33 \<Longrightarrow> 1 \<le> i \<Longrightarrow> i \<le> 32 \<Longrightarrow>
   0 \<le> h \<Longrightarrow> (k < length tbh \<longrightarrow> h \<le> uint (height (tbh ! k))) \<Longrightarrow>
   test_heights (files st' ! i)
     = test_heights (files st ! i) @ map (\<lambda>c. uint (height c)) (drop k tbh)
   \<and> k' = max k (length tbh)
   \<and> h' = (if k < length tbh then uint (height (last tbh)) + 1 else h)"
proof (induction E tbh k h st arbitrary: h' k' st' rule: main_loop.induct)
  case (1 E tbh k h st)
  note unf = main_loop.simps [of E tbh k h st]
  note res = "1.prems"(1)
  show ?case
  proof (cases "k < length tbh")
    case False
    then show ?thesis using res by (simp add: unf)
  next
    case k: True
    from res k obtain blockHash where bh: "GetBlockHash E h = Inr blockHash"
      by (cases "GetBlockHash E h") (simp_all add: unf)
    from res k bh obtain block where blk: "GetBlock E blockHash = Inr block"
      by (cases "GetBlock E blockHash") (simp_all add: unf)
    from res k bh blk obtain blockBytes where bb: "Serialize E block = Inr blockBytes"
      by (cases "Serialize E block") (simp_all add: unf)
    obtain a s1 where pl: "P_loop E tbh k h blockHash block blockBytes [1..<33] st = (a, s1)"
      by (cases "P_loop E tbh k h blockHash block blockBytes [1..<33] st")
    from res k bh blk bb pl have a: "a = None"
      by (cases a) (simp_all add: unf)
    note pl' = pl [unfolded a]
    have len1: "length (files s1) = 33"
      using P_loop_length [OF pl] "1.prems"(3) by simp
    note hs = P_loop_heights [OF pl' "1.prems"(3,4,5)]
    have hk: "h \<le> uint (height (tbh ! k))" using "1.prems"(7) k by simp
    show ?thesis
    proof (cases "(word_of_int h :: 32 word) = height (tbh ! k)")
      case True
      then have hu: "h = uint (height (tbh ! k))"
        using word_of_int_eq_uint [OF "1.prems"(6) hk] by simp
      have next_res: "main_loop E tbh (k + 1) (h + 1) s1 = (None, h', k', st')"
        using res k bh blk bb pl' True by (simp add: unf)
      have inv: "k + 1 < length tbh \<longrightarrow> h + 1 \<le> uint (height (tbh ! (k + 1)))"
        using sorted_heights_step [OF "1.prems"(2), of k] hu by simp
      have h0: "0 \<le> h + 1" using "1.prems"(6) by simp
      note ih = "1.IH"(1) [OF k bh blk bb pl [symmetric] a True next_res "1.prems"(2) len1
          "1.prems"(4,5) h0 inv]
      have dr: "drop k tbh = tbh ! k # drop (k + 1) tbh"
        using k by (simp add: Cons_nth_drop_Suc)
      have rows: "test_heights (files st' ! i)
          = test_heights (files st ! i) @ map (\<lambda>c. uint (height c)) (drop k tbh)"
        using conjunct1 [OF ih] hs True hu by (simp add: dr)
      have idx: "k' = max k (length tbh)"
        using conjunct1 [OF conjunct2 [OF ih]] k by simp
      have fin: "h' = uint (height (last tbh)) + 1"
      proof (cases "k + 1 < length tbh")
        case True
        then show ?thesis using conjunct2 [OF conjunct2 [OF ih]] by simp
      next
        case False
        with k have "k = length tbh - 1" by simp
        moreover have "tbh \<noteq> []" using k by auto
        ultimately have "last tbh = tbh ! k" by (simp add: last_conv_nth)
        then show ?thesis using conjunct2 [OF conjunct2 [OF ih]] False hu by simp
      qed
      show ?thesis
        using rows idx fin k by simp
    next
      case False
      then have hlt: "h + 1 \<le> uint (height (tbh ! k))"
        using word_of_int_eq_uint [OF "1.prems"(6) hk] hk by simp
      have next_res: "main_loop E tbh k (h + 1) s1 = (None, h', k', st')"
        using res k bh blk bb pl' False by (simp add: unf)
      have inv: "k < length tbh \<longrightarrow> h + 1 \<le> uint (height (tbh ! k))"
        using hlt by simp
      have h0: "0 \<le> h + 1" using "1.prems"(6) by simp
      note ih = "1.IH"(2) [OF k bh blk bb pl [symmetric] a False next_res "1.prems"(2) len1
          "1.prems"(4,5) h0 inv]
      have rows: "test_heights (files st' ! i)
          = test_heights (files st ! i) @ map (\<lambda>c. uint (height c)) (drop k tbh)"
        using conjunct1 [OF ih] hs False by simp
      have idx: "k' = max k (length tbh)"
        using conjunct1 [OF conjunct2 [OF ih]] by simp
      have fin: "h' = uint (height (last tbh)) + 1"
        using conjunct2 [OF conjunct2 [OF ih]] k by simp
      show ?thesis
        using rows idx fin k by simp
    qed
  qed
qed

text \<open>
  Claim C7. The loop over the heights starts at height 0 with index 0. For a list of test
  heights in strictly increasing order, a run that is not aborted leaves the loop with the
  index at the end of the list and the height one past the last test height, and in the
  file of every P in 1..32 the test rows it has added are those of the test heights, one
  each, in order. The loop is a total function, so it always returns; when no outside
  call fails, no comparison with the server is made and every file is open, it returns
  without an abort.
\<close>

theorem rows_at_test_heights:
  assumes "sorted_wrt (<) (map height tbh)" and "length (files st) = 33"
    and "1 \<le> i" and "i \<le> 32"
  shows "(\<forall>h' k' st'. main_loop E tbh 0 0 st = (None, h', k', st') \<longrightarrow>
           test_heights (files st' ! i)
             = test_heights (files st ! i) @ map (\<lambda>c. uint (height c)) tbh
           \<and> k' = length tbh
           \<and> h' = (if tbh = [] then 0 else uint (height (last tbh)) + 1))
       \<and> (never_fails E \<and> (\<forall>j \<in> {1..32}. files st ! j \<noteq> None) \<longrightarrow>
            fst (main_loop E tbh 0 0 st) = None)"
proof -
  have a: "test_heights (files st' ! i)
             = test_heights (files st ! i) @ map (\<lambda>c. uint (height c)) tbh
           \<and> k' = length tbh
           \<and> h' = (if tbh = [] then 0 else uint (height (last tbh)) + 1)"
    if r: "main_loop E tbh 0 0 st = (None, h', k', st')" for h' k' st'
  proof -
    have inv: "0 < length tbh \<longrightarrow> (0::int) \<le> uint (height (tbh ! 0))"
      by simp
    from main_loop_heights [OF r assms(1,2,3,4) order_refl inv]
    show ?thesis by (cases "tbh = []") simp_all
  qed
  have b: "fst (main_loop E tbh 0 0 st) = None"
    if "never_fails E" and "\<forall>j \<in> {1..32}. files st ! j \<noteq> None"
    using that by (rule main_loop_completes)
  from a b show ?thesis by blast
qed

theorem rows_at_test_heights_witness:
  "sorted_wrt (<) (map height demo_heights)
   \<and> length (files demo_state) = 33
   \<and> fst (main_loop demo_env demo_heights 0 0 demo_state) = None
   \<and> fst (snd (main_loop demo_env demo_heights 0 0 demo_state)) = 3
   \<and> fst (snd (snd (main_loop demo_env demo_heights 0 0 demo_state))) = 2
   \<and> test_heights (files (snd (snd (snd (main_loop demo_env demo_heights 0 0 demo_state)))) ! 5)
       = [0, 2]"
proof -
  have s: "sorted_wrt (<) (map height demo_heights)"
    by (simp add: demo_heights_def)
  have l: "length (files demo_state) = 33"
    by (simp add: demo_state_def)
  have w: "\<forall>j \<in> {1..32}. files demo_state ! j \<noteq> None"
    using demo_state_writers by simp
  have i: "1 \<le> (5::nat)" "(5::nat) \<le> 32" by simp_all
  note t = rows_at_test_heights [OF s l i, of demo_env]
  from conjunct2 [OF t] never_fails_demo w
  have n: "fst (main_loop demo_env demo_heights 0 0 demo_state) = None" by blast
  obtain a h' k' st' where r: "main_loop demo_env demo_heights 0 0 demo_state = (a, h', k', st')"
    by (cases "main_loop demo_env demo_heights 0 0 demo_state")
  with n have r': "main_loop demo_env demo_heights 0 0 demo_state = (None, h', k', st')"
    by simp
  have t0: "test_heights (files demo_state ! 5) = []"
    by (simp add: demo_state_def demo_writer_def test_heights_def nth_Cons' header_comment_def)
  have v: "map (\<lambda>c. uint (height c)) demo_heights = [0, 2]"
    "length demo_heights = 2" "demo_heights \<noteq> []" "uint (height (last demo_heights)) + 1 = 3"
    by (simp_all add: demo_heights_def)
  from conjunct1 [OF t, rule_format, OF r'] show ?thesis
    using s l n r' t0 v by simp
qed

lemma open_files_frame:
  "open_files E is st = (r, st0) \<Longrightarrow> 0 \<notin> set is \<Longrightarrow>
   files st0 ! 0 = files st ! 0 \<and> length (files st0) = length (files st)
   \<and> prevBasicHeaders st0 = prevBasicHeaders st \<and> prevExtHeaders st0 = prevExtHeaders st"
proof (induction "is" arbitrary: st)
  case Nil
  then show ?case by simp
next
  case (Cons i "is")
  from Cons.prems(2) have i: "i \<noteq> 0" and r: "0 \<notin> set is" by auto
  show ?case
  proof (cases "Create E i")
    case (Some e)
    with Cons.prems(1) show ?thesis by simp
  next
    case None
    obtain err w where wc: "WriteComment E \<lparr>writer = [], firstRowWritten = False\<rparr> header_comment
        = (err, w)"
      by (cases "WriteComment E \<lparr>writer = [], firstRowWritten = False\<rparr> header_comment")
    show ?thesis
    proof (cases err)
      case (Some e)
      with Cons.prems(1) None wc show ?thesis by simp
    next
      case n: None
      with Cons.prems(1) None wc have
        "open_files E is (st\<lparr>files := (files st)[i := Some w]\<rparr>) = (r, st0)"
        by simp
      from Cons.IH [OF this r] i show ?thesis by simp
    qed
  qed
qed

lemma main_loop_frame0:
  "main_loop E tbh k h st = (a, h', k', st') \<Longrightarrow> slot_eq 0 st' st"
proof (induction E tbh k h st arbitrary: a h' k' st' rule: main_loop.induct)
  case (1 E tbh k h st)
  note unf = main_loop.simps [of E tbh k h st]
  note res = "1.prems"(1)
  show ?case
  proof (cases "k < length tbh")
    case False
    then show ?thesis using res by (simp add: unf slot_eq_refl)
  next
    case k: True
    show ?thesis
    proof (cases "GetBlockHash E h")
      case (Inl e)
      then show ?thesis using res k by (simp add: unf slot_eq_refl)
    next
      case bh: (Inr blockHash)
      show ?thesis
      proof (cases "GetBlock E blockHash")
        case (Inl e)
        then show ?thesis using res k bh by (simp add: unf slot_eq_refl)
      next
        case blk: (Inr block)
        show ?thesis
        proof (cases "Serialize E block")
          case (Inl e)
          then show ?thesis using res k bh blk by (simp add: unf slot_eq_refl)
        next
          case bb: (Inr blockBytes)
          obtain b s1 where pl: "P_loop E tbh k h blockHash block blockBytes [1..<33] st = (b, s1)"
            by (cases "P_loop E tbh k h blockHash block blockBytes [1..<33] st")
          have z: "0 \<notin> set [1..<33]" by simp
          note f = P_loop_frame [OF pl z]
          show ?thesis
          proof (cases b)
            case (Some x)
            then have "st' = s1" using res k bh blk bb pl by (simp add: unf)
            with f show ?thesis by simp
          next
            case None
            show ?thesis
            proof (cases "(word_of_int h :: 32 word) = height (tbh ! k)")
              case True
              have "main_loop E tbh (k + 1) (h + 1) s1 = (a, h', k', st')"
                using res k bh blk bb pl None True by (simp add: unf)
              from "1.IH"(1) [OF k bh blk bb pl [symmetric] None True this] f
              show ?thesis by (rule slot_eq_trans)
            next
              case False
              have "main_loop E tbh k (h + 1) s1 = (a, h', k', st')"
                using res k bh blk bb pl None False by (simp add: unf)
              from "1.IH"(2) [OF k bh blk bb pl [symmetric] None False this] f
              show ?thesis by (rule slot_eq_trans)
            qed
          qed
        qed
      qed
    qed
  qed
qed

lemma run_deferred_0: "ws ! 0 = None \<Longrightarrow> 0 < length ws \<Longrightarrow> run_deferred E ws ! 0 = None"
  by (simp add: run_deferred_def)

lemma main_slot0:
  "case main E of (a, stf, w) \<Rightarrow>
     files stf ! 0 = None \<and> prevBasicHeaders stf ! 0 = zeroHash
     \<and> prevExtHeaders stf ! 0 = zeroHash"
proof (cases "Mkdir E")
  case (Some e)
  then show ?thesis by (simp add: main_def init_state_def)
next
  case mk: None
  obtain r st where op: "open_files E [1..<33] init_state = (r, st)"
    by (cases "open_files E [1..<33] init_state")
  have z: "0 \<notin> set [1..<33]" by simp
  from open_files_frame [OF op z] have st:
    "files st ! 0 = None" "length (files st) = 33"
    "prevBasicHeaders st ! 0 = zeroHash" "prevExtHeaders st ! 0 = zeroHash"
    by (simp_all add: init_state_def)
  have rd: "run_deferred E (files st) ! 0 = None"
    using st by (simp add: run_deferred_0)
  show ?thesis
  proof (cases r)
    case (Some aw)
    then show ?thesis using mk op st rd by (cases aw) (simp add: main_def)
  next
    case opn: None
    show ?thesis
    proof (cases "ReadFile E")
      case (Some e)
      then show ?thesis using mk op opn st rd by (simp add: main_def)
    next
      case rf: None
      show ?thesis
      proof (cases "NewClient E")
        case (Some e)
        then show ?thesis using mk op opn rf st rd by (simp add: main_def)
      next
        case nc: None
        obtain a h' k' st' where ml: "main_loop E testBlockHeights 0 0 st = (a, h', k', st')"
          by (cases "main_loop E testBlockHeights 0 0 st")
        from main_loop_frame0 [OF ml] st have st':
          "files st' ! 0 = None" "length (files st') = 33"
          "prevBasicHeaders st' ! 0 = zeroHash" "prevExtHeaders st' ! 0 = zeroHash"
          by (simp_all add: slot_eq_def)
        have "run_deferred E (files st') ! 0 = None"
          using st' by (simp add: run_deferred_0)
        then show ?thesis using mk op opn rf nc ml st' by (simp add: main_def)
      qed
    qed
  qed
qed

text \<open>
  Claim C9. The step for one P reads and writes slot P only: with any other slot j of the
  three slices replaced beforehand, the step has the same outcome and the same effect, and
  slot j is as replaced. The whole loop over the heights does so for slot 0. When main
  returns, slot 0 of each slice is as it was made: no writer, and the hash of zero bytes.
\<close>

theorem chains_independent:
  "(j \<noteq> i \<longrightarrow>
      process_P E tbh k h blockHash block blockBytes i (upd_slot j f b e st)
        = apsnd (upd_slot j f b e) (process_P E tbh k h blockHash block blockBytes i st))
   \<and> main_loop E tbh k h (upd_slot 0 f b e st)
       = (case main_loop E tbh k h st of (a, h', k', st') \<Rightarrow> (a, h', k', upd_slot 0 f b e st'))
   \<and> (case main E of (a, stf, w) \<Rightarrow>
         files stf ! 0 = None \<and> prevBasicHeaders stf ! 0 = zeroHash
         \<and> prevExtHeaders stf ! 0 = zeroHash)"
  using process_P_upd [of j i E tbh k h blockHash block blockBytes f b e st]
    main_loop_upd [of E tbh k h f b e st] main_slot0 [of E]
  by (intro conjI impI) assumption+

theorem chains_independent_witness:
  "(2::nat) \<noteq> 1
   \<and> process_P demo_env demo_heights 0 0 [0] demo_block [7] 1 (upd_slot 2 None [9] [8] demo_state)
       = apsnd (upd_slot 2 None [9] [8])
           (process_P demo_env demo_heights 0 0 [0] demo_block [7] 1 demo_state)
   \<and> files (upd_slot 2 None [9] [8] demo_state) ! 2 \<noteq> files demo_state ! 2"
proof -
  have n: "(2::nat) \<noteq> 1" by simp
  have d: "files (upd_slot 2 None [9] [8] demo_state) ! 2 \<noteq> files demo_state ! 2"
    by (simp add: upd_slot_def demo_state_def)
  from conjunct1 [OF chains_independent [of 2 1 demo_env demo_heights 0 0 "[0]" demo_block "[7]"
      None "[9]" "[8]" demo_state], rule_format, OF n] n d
  show ?thesis by simp
qed

end
